theory Spec2Isabelle
  imports Main "HOL-Library.Monad_Syntax"
begin

section \<open>Go strings and slices\<close>

text \<open>
  A Go \<open>string\<close> is a sequence of bytes: it is modelled as a \<open>string\<close> (a list of
  \<open>char\<close>), and \<open>len\<close> is \<open>length\<close>. Indices are Go \<open>int\<close>s; they are
  modelled as \<open>int\<close>, since every index below is bounded by the length of a string.
  A slice expression \<open>s[lo:hi]\<close> panics unless \<open>0 \<le> lo \<le> hi \<le> len(s)\<close>: the panic
  is the value \<open>None\<close>.
\<close>

definition go_slice :: "string \<Rightarrow> int \<Rightarrow> int \<Rightarrow> string option" where
  "go_slice s lo hi =
     (if 0 \<le> lo \<and> lo \<le> hi \<and> hi \<le> int (length s)
      then Some (take (nat hi - nat lo) (drop (nat lo) s)) else None)"

definition go_slice_from :: "string \<Rightarrow> int \<Rightarrow> string option" where
  "go_slice_from s lo = go_slice s lo (int (length s))"

definition go_slice_to :: "string \<Rightarrow> int \<Rightarrow> string option" where
  "go_slice_to s hi = go_slice s 0 hi"

text \<open>\<open>strings.IndexByte(s, c)\<close>: the index of the first \<open>c\<close> in \<open>s\<close>, or \<open>-1\<close>.\<close>

fun IndexByte :: "string \<Rightarrow> char \<Rightarrow> int" where
  "IndexByte [] c = - 1"
| "IndexByte (x # xs) c =
     (if x = c then 0
      else (let i = IndexByte xs c in if i < 0 then - 1 else i + 1))"

text \<open>\<open>strings.Index(s, sep)\<close>: the index of the first occurrence of \<open>sep\<close>, or \<open>-1\<close>.\<close>

fun Index :: "string \<Rightarrow> string \<Rightarrow> int" where
  "Index [] sep = (if sep = [] then 0 else - 1)"
| "Index (x # xs) sep =
     (if take (length sep) (x # xs) = sep then 0
      else (let i = Index xs sep in if i < 0 then - 1 else i + 1))"

section \<open>The Go standard library's package \<open>path\<close>\<close>

text \<open>
  \<open>ExtractAssetID\<close> calls \<open>path.Base\<close>, \<open>path.Dir\<close> and \<open>path.Join\<close>, and these call
  \<open>path.Clean\<close>. They are modelled after the standard library's source, loop by loop.
\<close>

definition slash :: char where
  "slash = CHR ''/''"

definition dot :: char where
  "dot = CHR ''.''"

text \<open>\<open>lastSlash(s)\<close>: the index of the last slash of \<open>s\<close>, or \<open>-1\<close>.\<close>

fun lastSlash_from :: "string \<Rightarrow> nat \<Rightarrow> int" where
  "lastSlash_from s 0 = - 1"
| "lastSlash_from s (Suc i) = (if s ! i = slash then int i else lastSlash_from s i)"

definition lastSlash :: "string \<Rightarrow> int" where
  "lastSlash s = lastSlash_from s (length s)"

text \<open>
  The loop of \<open>path.Base\<close> that strips the trailing slashes:
  \<open>for len(path) > 0 && path[len(path)-1] == '/' { path = path[0 : len(path)-1] }\<close>.
\<close>

function stripTrailingSlashes :: "string \<Rightarrow> string" where
  "stripTrailingSlashes p =
     (if length p > 0 \<and> p ! (length p - 1) = slash
      then stripTrailingSlashes (take (length p - 1) p) else p)"
  by pat_completeness auto
termination
  by (relation "measure length") auto

declare stripTrailingSlashes.simps [simp del]

definition path_Base :: "string \<Rightarrow> string" where
  "path_Base p =
     (if p = [] then ''.''
      else
        let p1 = stripTrailingSlashes p;
            i = lastSlash p1;
            p2 = (if i \<ge> 0 then drop (nat (i + 1)) p1 else p1)
        in if p2 = [] then ''/'' else p2)"

text \<open>
  \<open>path.Clean\<close>. The state of its loop is the input still to read (\<open>path[r:]\<close>), the
  bytes written so far (\<open>out\<close>, of length \<open>out.w\<close>), the index \<open>dotdot\<close> below which
  a \<open>..\<close> element cannot remove anything, and the flag \<open>rooted\<close>.
\<close>

text \<open>
  Backtracking over the last element written, after \<open>out.w--\<close>:
  \<open>for out.w > dotdot && out.index(out.w) != '/' { out.w-- }\<close>.
  The byte read is the one at index \<open>out.w\<close> of the bytes written before.
\<close>

function backtrack :: "string \<Rightarrow> nat \<Rightarrow> nat \<Rightarrow> nat" where
  "backtrack buf dotdot w =
     (if w > dotdot \<and> buf ! w \<noteq> slash then backtrack buf dotdot (w - 1) else w)"
  by pat_completeness auto
termination
  by (relation "measure (\<lambda>(buf, dotdot, w). w)") auto

declare backtrack.simps [simp del]

text \<open>The element copied by the default case: the bytes up to the next slash.\<close>

definition elem_of :: "string \<Rightarrow> string" where
  "elem_of p = takeWhile (\<lambda>c. c \<noteq> slash) p"

definition after_elem :: "string \<Rightarrow> string" where
  "after_elem p = dropWhile (\<lambda>c. c \<noteq> slash) p"

function clean_loop :: "bool \<Rightarrow> string \<Rightarrow> string \<Rightarrow> nat \<Rightarrow> string" where
  "clean_loop rooted [] out dotdot = out"
| "clean_loop rooted (c # p) out dotdot =
     (if c = slash then clean_loop rooted p out dotdot
      else if c = dot \<and> (p = [] \<or> hd p = slash) then clean_loop rooted p out dotdot
      else if c = dot \<and> hd p = dot \<and> (tl p = [] \<or> hd (tl p) = slash) then
        (if length out > dotdot then
           clean_loop rooted (tl p) (take (backtrack out dotdot (length out - 1)) out) dotdot
         else if \<not> rooted then
           (let out' = (if length out > 0 then out @ [slash] else out) @ [dot, dot]
            in clean_loop rooted (tl p) out' (length out'))
         else clean_loop rooted (tl p) out dotdot)
      else
        (let out' = (if rooted \<and> length out \<noteq> 1 \<or> \<not> rooted \<and> length out \<noteq> 0
                     then out @ [slash] else out)
         in clean_loop rooted (after_elem (c # p)) (out' @ elem_of (c # p)) dotdot))"
  by pat_completeness auto
termination
  by (relation "measure (\<lambda>(rooted, p, out, dotdot). length p)")
    (auto simp: after_elem_def less_Suc_eq_le length_dropWhile_le)

declare clean_loop.simps [simp del]

definition path_Clean :: "string \<Rightarrow> string" where
  "path_Clean p =
     (if p = [] then ''.''
      else
        let rooted = (hd p = slash);
            out = (if rooted then clean_loop True (tl p) [slash] 1
                   else clean_loop False p [] 0)
        in if length out = 0 then ''.'' else out)"

text \<open>\<open>path.Split\<close> and \<open>path.Dir\<close>.\<close>

definition path_Split :: "string \<Rightarrow> string \<times> string" where
  "path_Split p = (let i = lastSlash p in (take (nat (i + 1)) p, drop (nat (i + 1)) p))"

definition path_Dir :: "string \<Rightarrow> string" where
  "path_Dir p = path_Clean (fst (path_Split p))"

text \<open>
  \<open>path.Join\<close>: the non-empty elements, separated by slashes, then cleaned; the empty
  string when every element is empty.
\<close>

fun join_buf :: "string \<Rightarrow> string list \<Rightarrow> string" where
  "join_buf buf [] = buf"
| "join_buf buf (e # es) =
     (if length buf > 0 \<or> e \<noteq> []
      then join_buf ((if length buf > 0 then buf @ [slash] else buf) @ e) es
      else join_buf buf es)"

definition path_Join :: "string list \<Rightarrow> string" where
  "path_Join elems =
     (if sum_list (map length elems) = 0 then [] else path_Clean (join_buf [] elems))"

section \<open>Asset identifiers in file names (\<open>web/statik/handler.go\<close>)\<close>

text \<open>
  \<open>isLongHexString\<close>. The loop ranges over the runes of \<open>s\<close>; a byte outside ASCII
  starts a rune that is no hexadecimal digit, so the loop is the same over the bytes.
\<close>

definition is_hex_digit :: "char \<Rightarrow> bool" where
  "is_hex_digit c =
     (let n = (of_char c :: nat) in
        (of_char CHR ''0'' \<le> n \<and> n \<le> of_char CHR ''9'') \<or>
        (of_char CHR ''a'' \<le> n \<and> n \<le> of_char CHR ''f'') \<or>
        (of_char CHR ''A'' \<le> n \<and> n \<le> of_char CHR ''F''))"

fun all_hex :: "string \<Rightarrow> bool" where
  "all_hex [] = True"
| "all_hex (c # cs) = (if is_hex_digit c then all_hex cs else False)"

definition isLongHexString :: "string \<Rightarrow> bool" where
  "isLongHexString s = (if length s < 10 then False else all_hex s)"

text \<open>
  \<open>ExtractAssetID\<close> returns the file name and the identifier; \<open>None\<close> is a panic of
  one of its slice expressions.
\<close>

definition ExtractAssetID :: "string \<Rightarrow> (string \<times> string) option" where
  "ExtractAssetID file =
     (let base = path_Base file;
          off1 = IndexByte base dot + 1
      in if off1 < int (length base) then
           do {
             rest \<leftarrow> go_slice_from base off1;
             let off2 = off1 + IndexByte rest dot;
             if off2 > off1 then
               do {
                 s \<leftarrow> go_slice base off1 off2;
                 if isLongHexString s \<or> s = ''immutable'' then
                   do {
                     let dir = path_Dir file;
                     before \<leftarrow> go_slice_to base (off1 - 1);
                     after \<leftarrow> go_slice_from base off2;
                     let file' = before @ after;
                     Some (if dir \<noteq> ''.'' then path_Join [dir, file'] else file', s)
                   }
                 else Some (file, [])
               }
             else Some (file, [])
           }
         else Some (file, []))"

subsection \<open>The base name by its dot-separated segments\<close>

text \<open>\<open>split_on c s\<close> is \<open>strings.Split(s, c)\<close>: the segments of \<open>s\<close> between the \<open>c\<close>s.\<close>

fun split_on :: "char \<Rightarrow> string \<Rightarrow> string list" where
  "split_on c [] = [[]]"
| "split_on c (x # xs) =
     (if x = c then [] # split_on c xs
      else (case split_on c xs of [] \<Rightarrow> [[x]] | y # ys \<Rightarrow> (x # y) # ys))"

fun join_on :: "char \<Rightarrow> string list \<Rightarrow> string" where
  "join_on c [] = []"
| "join_on c [x] = x"
| "join_on c (x # y # ys) = x @ c # join_on c (y # ys)"

definition is_asset_id :: "string \<Rightarrow> bool" where
  "is_asset_id s = (isLongHexString s \<or> s = ''immutable'')"

text \<open>The second dot-separated segment of a base name, when there is one.\<close>

definition second_segment :: "string \<Rightarrow> string option" where
  "second_segment base =
     (case split_on dot base of p # s # rest \<Rightarrow> Some s | _ \<Rightarrow> None)"

text \<open>
  A base name carries an identifier when it has three segments or more and the second
  is an identifier: the result is the base name without that segment, and the segment.
\<close>

definition base_asset_id :: "string \<Rightarrow> (string \<times> string) option" where
  "base_asset_id base =
     (case split_on dot base of
        p # s # r # rest \<Rightarrow>
          if is_asset_id s then Some (join_on dot (p # r # rest), s) else None
      | _ \<Rightarrow> None)"


subsection \<open>What \<open>path.Clean\<close> computes\<close>

text \<open>
  The documentation of \<open>path.Clean\<close> gives four rules, applied to the elements of the
  path between its slashes: an empty element and a \<open>.\<close> element are dropped; a \<open>..\<close>
  element removes the element before it; a \<open>..\<close> element that begins a rooted path is
  dropped; a \<open>..\<close> element that begins a path that is not rooted stays. The state of
  this reading is the number of leading \<open>..\<close> elements and the list of the elements
  kept after them.
\<close>

text \<open>An element that is kept as it is.\<close>

definition normal_elem :: "string \<Rightarrow> bool" where
  "normal_elem e = (e \<noteq> [] \<and> slash \<notin> set e \<and> e \<noteq> ''.'' \<and> e \<noteq> ''..'')"

fun lexical_step :: "bool \<Rightarrow> nat \<times> string list \<Rightarrow> string \<Rightarrow> nat \<times> string list" where
  "lexical_step rooted (k, es) e =
     (if e = [] \<or> e = ''.'' then (k, es)
      else if e = ''..'' then
        (if es \<noteq> [] then (k, butlast es) else if rooted then (k, es) else (Suc k, es))
      else (k, es @ [e]))"

text \<open>The bytes written for a state, and the index below which nothing is removed.\<close>

definition render :: "bool \<Rightarrow> nat \<times> string list \<Rightarrow> string" where
  "render rooted S =
     (if rooted then [slash] else []) @ join_on slash (replicate (fst S) ''..'' @ snd S)"

definition render_dotdot :: "bool \<Rightarrow> nat \<times> string list \<Rightarrow> nat" where
  "render_dotdot rooted S =
     (if rooted then 1 else length (join_on slash (replicate (fst S) ''..'')))"

text \<open>The cleaned path, by the rules: the empty result is \<open>.\<close>.\<close>

definition lexical_Clean :: "string \<Rightarrow> string" where
  "lexical_Clean p =
     (if p = [] then ''.''
      else
        let rooted = (hd p = slash);
            S = foldl (lexical_step rooted) (0, []) (split_on slash (if rooted then tl p else p));
            out = (if rooted then render True S else render False S)
        in if out = [] then ''.'' else out)"

text \<open>The states the rules reach: no leading \<open>..\<close> in a rooted path.\<close>

definition clean_state :: "bool \<Rightarrow> nat \<times> string list \<Rightarrow> bool" where
  "clean_state rooted S = (list_all normal_elem (snd S) \<and> (rooted \<longrightarrow> fst S = 0))"


definition lexical_state :: "bool \<Rightarrow> string \<Rightarrow> nat \<times> string list" where
  "lexical_state rooted q = foldl (lexical_step rooted) (0, []) (split_on slash q)"

definition or_dot :: "string \<Rightarrow> string" where
  "or_dot out = (if out = [] then ''.'' else out)"


section \<open>The language of a request (\<open>GetLanguageFromHeader\<close>)\<close>

text \<open>
  An \<open>http.Header\<close> maps a key to its values; an absent key has no value.
  \<open>Header.Get\<close> returns the first value of the key, or the empty string.
\<close>

type_synonym Header = "string \<Rightarrow> string list"

definition Header_Get :: "Header \<Rightarrow> string \<Rightarrow> string" where
  "Header_Get h key = (case h key of [] \<Rightarrow> [] | v # vs \<Rightarrow> v)"

text \<open>
  Modelled from the spec: \<open>utils.IsInArray\<close> is missing from src/. Claim C9 reads its
  result as "belongs to the supported locales": the string is an element of the array.
\<close>

definition IsInArray :: "string \<Rightarrow> string list \<Rightarrow> bool" where
  "IsInArray s a = (s \<in> set a)"

text \<open>
  The loop over the tags. \<open>tag[:i]\<close> is taken at an index that \<open>strings.Index\<close> or
  \<open>strings.IndexByte\<close> returned, which is in range, so it is \<open>take\<close>.
  The constant \<open>consts.SupportedLocales\<close> is the parameter \<open>SupportedLocales\<close>; the
  last argument is the value of \<open>lang\<close> when the loop is entered.
\<close>

fun language_loop :: "string list \<Rightarrow> string list \<Rightarrow> string \<Rightarrow> string" where
  "language_loop SupportedLocales [] lang = lang"
| "language_loop SupportedLocales (tag # tags) lang =
     (let i = Index tag '';q='';
          tag1 = (if i \<ge> 0 then take (nat i) tag else tag);
          j = IndexByte tag1 CHR ''-'';
          tag2 = (if j \<ge> 0 then take (nat j) tag1 else tag1)
      in if IsInArray tag2 SupportedLocales then tag2
         else language_loop SupportedLocales tags lang)"

text \<open>
  \<open>GetLanguageFromHeader\<close>. The constants \<open>consts.DefaultLocale\<close> and
  \<open>consts.SupportedLocales\<close> and the function \<open>utils.SplitTrimString\<close> are not
  under src/: they are parameters.
\<close>

definition GetLanguageFromHeader ::
    "string \<Rightarrow> string list \<Rightarrow> (string \<Rightarrow> string \<Rightarrow> string list) \<Rightarrow> Header \<Rightarrow> string" where
  "GetLanguageFromHeader DefaultLocale SupportedLocales SplitTrimString header =
     (let lang = DefaultLocale;
          acceptHeader = Header_Get header ''Accept-Language''
      in if acceptHeader = [] then lang
         else
           let acceptLanguages = SplitTrimString acceptHeader '','';
               lang = language_loop SupportedLocales acceptLanguages lang
           in lang)"

subsection \<open>The tags, as the header lists them\<close>

text \<open>The part of a string before the first occurrence of a separator (all of it when
  the separator does not occur).\<close>

fun before_sep :: "string \<Rightarrow> string \<Rightarrow> string" where
  "before_sep sep [] = []"
| "before_sep sep (x # xs) =
     (if take (length sep) (x # xs) = sep then [] else x # before_sep sep xs)"

text \<open>A tag without its quality factor and without its country variant.\<close>

definition tag_language :: "string \<Rightarrow> string" where
  "tag_language tag = takeWhile (\<lambda>c. c \<noteq> CHR ''-'') (before_sep '';q='' tag)"

text \<open>
  A splitter for the examples: the parts of \<open>s\<close> between the separator bytes, without
  their leading and trailing spaces, the empty ones left out.
\<close>

definition trim_spaces :: "string \<Rightarrow> string" where
  "trim_spaces s =
     rev (dropWhile (\<lambda>c. c = CHR '' '') (rev (dropWhile (\<lambda>c. c = CHR '' '') s)))"

definition split_trim :: "string \<Rightarrow> string \<Rightarrow> string list" where
  "split_trim s sep =
     (if s = [] then []
      else filter (\<lambda>p. p \<noteq> []) (map trim_spaces (split_on (hd sep) s)))"

section \<open>The asset handler (\<open>Handler.ServeHTTP\<close>)\<close>

text \<open>
  What a handler does to its \<open>http.ResponseWriter\<close> is the state \<open>response\<close>: the
  status written by \<open>WriteHeader\<close> (\<open>None\<close> while none was written), the header map
  and the bytes written to the body. The calls out of the handler are logged as
  \<open>event\<close>s, in the order they are made.
\<close>

record response =
  status :: "nat option"
  headers :: Header
  body :: string

definition empty_response :: response where
  "empty_response = \<lparr>status = None, headers = (\<lambda>k. []), body = []\<rparr>"

record request =
  Method :: string
  URL_Path :: string
  Host :: string
  ReqHeader :: Header

record Asset =
  Etag :: string
  Mime :: string
  Size :: string
  BrotliSize :: string
  Reader :: string
  BrotliReader :: string

datatype event =
  AssetsGet string string
| GetInstance string

text \<open>
  The collaborators of the handler that are not under src/: \<open>assets.Get\<close>,
  \<open>lifecycle.GetInstance\<close> (the context name of the instance, when it is found),
  \<open>utils.CheckPreconditions\<close> and the standard library's \<open>http.Error\<close>.
\<close>

record env =
  assets_Get :: "string \<Rightarrow> string \<Rightarrow> Asset option"
  lifecycle_GetInstance :: "string \<Rightarrow> string option"
  CheckPreconditions :: "response \<Rightarrow> request \<Rightarrow> string \<Rightarrow> bool \<times> response"
  http_Error :: "response \<Rightarrow> string \<Rightarrow> nat \<Rightarrow> response"

definition StatusMethodNotAllowed :: nat where
  "StatusMethodNotAllowed = 405"

definition StatusNotFound :: nat where
  "StatusNotFound = 404"

definition MethodGet :: string where
  "MethodGet = ''GET''"

definition MethodHead :: string where
  "MethodHead = ''HEAD''"

definition assetsPrefix :: string where
  "assetsPrefix = ''/assets''"

definition assetsExtPrefix :: string where
  "assetsExtPrefix = ''/assets/ext''"

definition WriteHeader :: "response \<Rightarrow> nat \<Rightarrow> response" where
  "WriteHeader w code = (if status w = None then w\<lparr>status := Some code\<rparr> else w)"

definition Header_Set :: "response \<Rightarrow> string \<Rightarrow> string \<Rightarrow> response" where
  "Header_Set w key v = w\<lparr>headers := (headers w)(key := [v])\<rparr>"

definition Header_Add :: "response \<Rightarrow> string \<Rightarrow> string \<Rightarrow> response" where
  "Header_Add w key v = w\<lparr>headers := (headers w)(key := headers w key @ [v])\<rparr>"

text \<open>\<open>io.Copy(w, reader)\<close>: the bytes of the reader are written to the body.\<close>

definition io_Copy :: "response \<Rightarrow> string \<Rightarrow> response" where
  "io_Copy w bytes = w\<lparr>body := body w @ bytes\<rparr>"

definition HasPrefix :: "string \<Rightarrow> string \<Rightarrow> bool" where
  "HasPrefix s pre = (length s \<ge> length pre \<and> take (length pre) s = pre)"

definition TrimPrefix :: "string \<Rightarrow> string \<Rightarrow> string" where
  "TrimPrefix s pre = (if HasPrefix s pre then drop (length pre) s else s)"

definition Contains :: "string \<Rightarrow> string \<Rightarrow> bool" where
  "Contains s sub = (Index s sub \<ge> 0)"

text \<open>\<open>strings.SplitN(s, "/", 2)\<close>: \<open>s\<close> cut at its first slash, when it has one.\<close>

definition SplitN2 :: "string \<Rightarrow> string list" where
  "SplitN2 s =
     (let i = IndexByte s slash
      in if i < 0 then [s] else [take (nat i) s, drop (nat i + 1) s])"

definition ServeFile :: "env \<Rightarrow> response \<Rightarrow> request \<Rightarrow> Asset \<Rightarrow> bool \<Rightarrow> response" where
  "ServeFile e w r f checkETag =
     (let (done, w0) = (if checkETag then CheckPreconditions e w r (Etag f) else (False, w))
      in if checkETag \<and> done then w0
         else
           let w1 = Header_Set w0 ''Content-Type'' (Mime f);
               w2 = Header_Set w1 ''Content-Length'' (Size f);
               w3 = Header_Set w2 ''Vary'' ''Origin'';
               w4 = Header_Add w3 ''Vary'' ''Accept-Encoding'';
               acceptsBrotli = Contains (Header_Get (ReqHeader r) ''Accept-Encoding'') ''br'';
               w5 = (if acceptsBrotli
                     then Header_Set (Header_Set w4 ''Content-Encoding'' ''br'')
                            ''Content-Length'' (BrotliSize f)
                     else Header_Set w4 ''Content-Length'' (Size f));
               w6 = (if checkETag
                     then Header_Set (Header_Set w5 ''Etag'' (Etag f))
                            ''Cache-Control'' ''no-cache, public''
                     else Header_Set w5 ''Cache-Control'' ''max-age=31536000, public, immutable'')
           in if Method r = MethodGet
              then (if acceptsBrotli then io_Copy w6 (BrotliReader f) else io_Copy w6 (Reader f))
              else w6)"

text \<open>
  \<open>ServeHTTP\<close> returns the response and the calls it made. \<open>None\<close> is a panic of
  \<open>ExtractAssetID\<close>.
\<close>

definition ServeHTTP :: "env \<Rightarrow> response \<Rightarrow> request \<Rightarrow> (response \<times> event list) option" where
  "ServeHTTP e w r =
     (if Method r \<noteq> MethodGet \<and> Method r \<noteq> MethodHead
      then Some (WriteHeader w StatusMethodNotAllowed, [])
      else
        let ext = HasPrefix (URL_Path r) (assetsExtPrefix @ ''/'');
            nameWithContextSplit = SplitN2 (TrimPrefix (URL_Path r) (assetsExtPrefix @ ''/''))
        in if ext \<and> length nameWithContextSplit \<noteq> 2
           then Some (http_Error e w ''File not found'' StatusNotFound, [])
           else
             let (context, name0, ev0) =
                   (if ext then (nameWithContextSplit ! 0, nameWithContextSplit ! 1, [])
                    else (case lifecycle_GetInstance e (Host r) of
                            Some c \<Rightarrow> c | None \<Rightarrow> [],
                          TrimPrefix (URL_Path r) assetsPrefix,
                          [GetInstance (Host r)]))
             in do {
               (name1, id) \<leftarrow> ExtractAssetID name0;
               let name = (if length name1 > 0 \<and> hd name1 \<noteq> slash then slash # name1 else name1);
               let ev = ev0 @ [AssetsGet name context];
               (case assets_Get e name context of
                  None \<Rightarrow> Some (http_Error e w ''File not found'' StatusNotFound, ev)
                | Some f \<Rightarrow> Some (ServeFile e w r f (id = []), ev))
             })"

text \<open>What the handler wrote and what it looked up.\<close>

definition looked_up_asset :: "event list \<Rightarrow> bool" where
  "looked_up_asset evs = list_ex (\<lambda>ev. case ev of AssetsGet n c \<Rightarrow> True | _ \<Rightarrow> False) evs"


section \<open>Permissions: verbs, rules and sets\<close>

text \<open>
  The package \<open>permission\<close> is under src/ with its file \<open>permissions.go\<close> (the
  permission documents, \<open>PatchCodes\<close>, \<open>MergeExtraPermissions\<close>). Its files
  \<open>verbs.go\<close>, \<open>rule.go\<close> and \<open>set.go\<close> are missing: the verbs, the rules and the
  subset tests are written from the specification of the repository (sections 3 and
  4.1 of the spec), each under the sentence it models.
\<close>

subsection \<open>Verbs\<close>

text \<open>
  Modelled from the spec: the type \<open>Verb\<close> is missing from src/. "Verb: one of a fixed
  small enumeration (read, create, update, delete, patch-equivalent)."
\<close>

datatype Verb = Read | Create | Update | Delete | Patch

text \<open>
  Modelled from the spec: the type \<open>VerbSet\<close> and its subset test are missing from
  src/. "VerbSet: a set of Verbs with union/merge and subset test; the empty/absent set
  means all verbs in legacy documents and must be treated as no restriction rather than
  no access." An absent set and an empty set are both the set \<open>{}\<close>.
\<close>

type_synonym VerbSet = "Verb set"

definition all_verbs :: "Verb set" where
  "all_verbs = {Read, Create, Update, Delete, Patch}"

text \<open>Modelled from the spec: "the empty/absent set means all verbs". The verbs a VerbSet
  grants are all of them when the set is empty.\<close>

definition granted :: "VerbSet \<Rightarrow> Verb set" where
  "granted vs = (if vs = {} then all_verbs else vs)"

text \<open>Modelled from the spec: the verb-restriction check of a VerbSet is missing from
  src/. The VerbSet lets a verb through when it grants it ("no restriction" when empty).\<close>

definition VerbSet_Contains :: "VerbSet \<Rightarrow> Verb \<Rightarrow> bool" where
  "VerbSet_Contains vs v = (v \<in> granted vs)"

text \<open>Modelled from the spec: the "subset test" of VerbSet is missing from src/. Every
  verb the child grants is granted by the parent.\<close>

definition VerbSet_isSubsetOf :: "VerbSet \<Rightarrow> VerbSet \<Rightarrow> bool" where
  "VerbSet_isSubsetOf child parent = (granted child \<subseteq> granted parent)"

text \<open>Modelled from the spec: the "union/merge" of VerbSet is missing from src/.\<close>

definition VerbSet_merge :: "VerbSet \<Rightarrow> VerbSet \<Rightarrow> VerbSet" where
  "VerbSet_merge vs extra = vs \<union> extra"

subsection \<open>Rules\<close>

text \<open>
  Modelled from the spec: the type \<open>Rule\<close> is missing from src/. "Rule: {Title: string
  (unique key within a Set), Type: doctype-name, Verbs: VerbSet, Selector: optional
  field name, Values: ordered list of strings}."
\<close>

record Rule =
  Title :: string
  Type :: string
  Verbs :: VerbSet
  Selector :: "string option"
  Values :: "string list"

text \<open>
  Modelled from the spec: the name of the file doctype is missing from src/; the spec
  speaks of "a file-type rule". It is the doctype of the files of a tenant.
\<close>

definition Files :: string where
  "Files = ''io.cozy.files''"

text \<open>
  Modelled from the spec: the test of the values of a rule against the values of its
  parent is missing from src/. "Grants the verbs in Verbs on documents of Type whose
  Selector field (or document ID, if Selector absent) is one of Values; an empty Values
  list means all documents of this type." The documents a list of values selects are
  all of them when the list is empty.
\<close>

definition selected :: "string list \<Rightarrow> string set" where
  "selected vs = (if vs = [] then UNIV else set vs)"

text \<open>
  Modelled from the spec: "parent.Values is empty, or every element of Values appears in
  parent.Values", with the empty list read as section 3 of the spec says, as it is for
  the verbs: a rule on all the documents is within its parent only when the parent is
  on all the documents too.
\<close>

definition values_within :: "string list \<Rightarrow> string list \<Rightarrow> bool" where
  "values_within vs parent =
     (parent = [] \<or> (vs \<noteq> [] \<and> list_all (\<lambda>v. v \<in> set parent) vs))"

text \<open>
  Modelled from the spec: \<open>Rule.isSubsetOf\<close> is missing from src/.
  "Rule.isSubsetOf(parent): true iff same Type (with one exception: a file-type rule
  is always accepted against a parent regardless of the parent's own type, to support a
  sharing fast-path), Verbs \<subseteq> parent.Verbs, and (parent.Values is empty, or every
  element of Values appears in parent.Values) and Selector-compatibility (equal
  selectors, or parent has no selector meaning by ID)."
\<close>

definition Rule_isSubsetOf :: "Rule \<Rightarrow> Rule \<Rightarrow> bool" where
  "Rule_isSubsetOf r parent =
     ((Type r = Type parent \<or> Type r = Files) \<and>
      VerbSet_isSubsetOf (Verbs r) (Verbs parent) \<and>
      values_within (Values r) (Values parent) \<and>
      (Selector r = Selector parent \<or> Selector parent = None))"

text \<open>Modelled from the spec: the verb-restriction check of a rule is missing from src/.
  A rule "grants the verbs in Verbs".\<close>

definition Rule_allows :: "Rule \<Rightarrow> Verb \<Rightarrow> bool" where
  "Rule_allows r v = VerbSet_Contains (Verbs r) v"

subsection \<open>Sets of rules\<close>

text \<open>
  Modelled from the spec: the declaration of the type \<open>Set\<close> is missing from src/.
  "Set: ordered sequence of Rule, titles unique by convention (not enforced
  structurally)." \<open>permissions.go\<close> uses it as a slice of rules.
\<close>

type_synonym RuleSet = "Rule list"



subsection \<open>Merging the rules of two sets (\<open>MergeExtraPermissions\<close>)\<close>

text \<open>
  Modelled from the spec: \<open>Rule.Merge\<close> is missing from src/. "If a same-titled rule
  exists in the receiver, union their Verbs and Values (dedup)." A value of the other
  rule is appended to the values of the receiver unless it is among them. The spec
  names no failure of this merge: the result is always a rule (\<open>None\<close> is the error
  that \<open>MergeExtraPermissions\<close> tests for).
\<close>

definition add_value :: "string list \<Rightarrow> string \<Rightarrow> string list" where
  "add_value vs v = (if v \<in> set vs then vs else vs @ [v])"

definition Rule_Merge :: "Rule \<Rightarrow> Rule \<Rightarrow> Rule option" where
  "Rule_Merge r r2 =
     Some (r\<lparr>Verbs := VerbSet_merge (Verbs r) (Verbs r2),
              Values := foldl add_value (Values r) (Values r2)\<rparr>)"

text \<open>
  The inner loop of the first loop of \<open>MergeExtraPermissions\<close>: is there a rule of
  \<open>perms\<close> with the title of \<open>ep\<close>?
\<close>

fun found_title :: "Rule \<Rightarrow> RuleSet \<Rightarrow> bool" where
  "found_title ep [] = False"
| "found_title ep (p # perms) = (if Title ep = Title p then True else found_title ep perms)"

text \<open>
  The first loop: the rules of \<open>extraPermissions\<close> whose title is not in \<open>perms\<close> are
  appended to \<open>permissions\<close>.
\<close>

fun append_new :: "RuleSet \<Rightarrow> RuleSet \<Rightarrow> RuleSet \<Rightarrow> RuleSet" where
  "append_new perms [] permissions = permissions"
| "append_new perms (ep # extraPermissions) permissions =
     append_new perms extraPermissions
       (if \<not> found_title ep perms then permissions @ [ep] else permissions)"

text \<open>
  The inner loop of the second loop: the rule merged with the first rule of
  \<open>extraPermissions\<close> that has its title and merges without error (\<open>continue\<close> goes to
  the next one), or \<open>None\<close> when no such rule is found.
\<close>

fun merge_found :: "Rule \<Rightarrow> RuleSet \<Rightarrow> Rule option" where
  "merge_found rule [] = None"
| "merge_found rule (newRule # extraPermissions) =
     (if Title rule = Title newRule then
        (case Rule_Merge rule newRule of
           None \<Rightarrow> merge_found rule extraPermissions
         | Some mergedRule \<Rightarrow> Some mergedRule)
      else merge_found rule extraPermissions)"

text \<open>
  The second loop: every rule of \<open>perms\<close> is appended, merged when a rule of
  \<open>extraPermissions\<close> was found for it.
\<close>

fun merge_existing :: "RuleSet \<Rightarrow> RuleSet \<Rightarrow> RuleSet \<Rightarrow> RuleSet" where
  "merge_existing [] extraPermissions permissions = permissions"
| "merge_existing (rule # perms) extraPermissions permissions =
     merge_existing perms extraPermissions
       (case merge_found rule extraPermissions of
          Some mergedRule \<Rightarrow> permissions @ [mergedRule]
        | None \<Rightarrow> permissions @ [rule])"

text \<open>
  \<open>MergeExtraPermissions\<close>. Its second result, the error, is always \<open>nil\<close>: the model
  returns the set. A slice is the list of its elements: the \<open>nil\<close> slice
  (\<open>var permissions Set\<close>) is the empty list.
\<close>

definition MergeExtraPermissions :: "RuleSet \<Rightarrow> RuleSet \<Rightarrow> RuleSet" where
  "MergeExtraPermissions perms extraPermissions =
     merge_existing perms extraPermissions (append_new perms extraPermissions [])"

text \<open>
  The content of a rule and of a set, for "equal up to rule content": the values of a
  rule count as a set, and so do the rules of a set.
\<close>

definition rule_content :: "Rule \<Rightarrow> string \<times> string \<times> Verb set \<times> string option \<times> string set" where
  "rule_content r = (Title r, Type r, Verbs r, Selector r, set (Values r))"

definition set_content :: "RuleSet \<Rightarrow> (string \<times> string \<times> Verb set \<times> string option \<times> string set) set" where
  "set_content s = set (map rule_content s)"

subsection \<open>Permission documents (\<open>Permission\<close>, \<open>PatchCodes\<close>)\<close>

text \<open>
  A Go \<open>map[string]string\<close>: \<open>None\<close> is the \<open>nil\<close> map, which has no key. \<open>range\<close>
  goes through the entries of the map, in an order of its own.
\<close>

type_synonym go_map = "(string \<rightharpoonup> string) option"

definition entries :: "go_map \<Rightarrow> (string \<rightharpoonup> string)" where
  "entries m = (case m of None \<Rightarrow> Map.empty | Some f \<Rightarrow> f)"

definition map_keys :: "go_map \<Rightarrow> string set" where
  "map_keys m = dom (entries m)"

text \<open>A value of type \<open>interface{}\<close>, as \<open>ExpiresAt\<close> and \<open>Password\<close> hold it.\<close>

datatype iface = INil | IString string | IOther

text \<open>
  The struct \<open>Permission\<close>. Its field \<open>Type\<close> is \<open>PType\<close> here, \<open>Type\<close> being the
  field of a rule. The fields \<open>Client\<close> and \<open>Metadata\<close>, which \<open>PatchCodes\<close> does
  not touch, are the extension of the record.
\<close>

record Permission =
  PID :: string
  PRev :: string
  PType :: string
  SourceID :: string
  Permissions :: RuleSet
  ExpiresAt :: iface
  Codes :: go_map
  ShortCodes :: go_map
  Password :: iface

definition TypeRegister :: string where
  "TypeRegister = ''register''"

definition TypeWebapp :: string where
  "TypeWebapp = ''app''"

definition TypeKonnector :: string where
  "TypeKonnector = ''konnector''"

definition TypeOauth :: string where
  "TypeOauth = ''oauth''"

definition TypeCLI :: string where
  "TypeCLI = ''cli''"

definition TypeShareByLink :: string where
  "TypeShareByLink = ''share''"

definition TypeSharePreview :: string where
  "TypeSharePreview = ''share-preview''"

definition TypeShareInteract :: string where
  "TypeShareInteract = ''share-interact''"

text \<open>
  \<open>PatchCodes\<close>. The codes are replaced. When \<open>p.ShortCodes\<close> is not \<open>nil\<close>, the two
  loops write into the new map \<open>updatedShortcodes\<close> the entry of every key of
  \<open>p.ShortCodes\<close> that is a key of \<open>codes\<close>: each key is written with its own value,
  so the order in which \<open>range\<close> goes through the two maps does not matter.
\<close>

definition PatchCodes :: "'a Permission_scheme \<Rightarrow> go_map \<Rightarrow> 'a Permission_scheme" where
  "PatchCodes p codes =
     (let p1 = p\<lparr>Codes := codes\<rparr>
      in if ShortCodes p1 \<noteq> None then
           let updatedShortcodes =
                 (\<lambda>shortcodeName.
                    case entries codes shortcodeName of
                      None \<Rightarrow> None
                    | Some c \<Rightarrow> entries (ShortCodes p1) shortcodeName)
           in p1\<lparr>ShortCodes := Some updatedShortcodes\<rparr>
         else p1)"


section \<open>Sessions (\<open>package session\<close>)\<close>

text \<open>
  A \<open>time.Time\<close> is counted in nanoseconds from a fixed instant, and a
  \<open>time.Duration\<close> is a number of nanoseconds.
\<close>

definition Hour :: int where
  "Hour = 3600 * 1000000000"

definition SessionMaxAge :: int where
  "SessionMaxAge = 30 * 24 * Hour"

text \<open>The struct \<open>Session\<close>, without its pointer to the instance.\<close>

record Session =
  DocID :: string
  DocRev :: string
  CreatedAt :: int
  LastSeen :: int
  LongRun :: bool
  ShortRun :: bool
  SID :: string

text \<open>
  Modelled from the spec: the package \<open>couchdb\<close> is missing from src/. It is the
  "remote document store", with "create/get/update/delete-by-ID", a "not-found"
  condition and calls that can fail. An error of the store is \<open>NotFound\<close> or another
  error.
\<close>

datatype couch_error = NotFound | OtherError string

definition IsNotFoundError :: "couch_error option \<Rightarrow> bool" where
  "IsNotFoundError err = (err = Some NotFound)"

text \<open>
  The errors \<open>Get\<close> returns: the three errors of the package, or the error of the
  store as it is.
\<close>

datatype error = ErrNoCookie | ErrExpired | ErrInvalidID | CouchError couch_error

text \<open>The sessions of an instance in the store, by their identifier.\<close>

type_synonym session_store = "string \<rightharpoonup> Session"

text \<open>
  What one call of \<open>Get\<close> meets outside: the successive readings of \<open>time.Now()\<close>,
  the error with which each call to the store fails (\<open>None\<close> when the store does
  what is asked), and the revision the store gives to an updated document.
\<close>

record world =
  Now :: "nat \<Rightarrow> int"
  GetDoc_error :: "couch_error option"
  DeleteDoc_error :: "couch_error option"
  UpdateDoc_error :: "couch_error option"
  UpdateDoc_rev :: string

text \<open>
  Modelled from the spec: \<open>couchdb.GetDoc\<close>, \<open>couchdb.DeleteDoc\<close> and
  \<open>couchdb.UpdateDoc\<close> are missing from src/. A call that fails leaves the store as
  it was; a document that is not in the store is not found.
\<close>

definition couchdb_GetDoc :: "world \<Rightarrow> session_store \<Rightarrow> string \<Rightarrow> couch_error + Session" where
  "couchdb_GetDoc w st docID =
     (case GetDoc_error w of
        Some err \<Rightarrow> Inl err
      | None \<Rightarrow> (case st docID of None \<Rightarrow> Inl NotFound | Some s \<Rightarrow> Inr s))"

definition couchdb_DeleteDoc :: "world \<Rightarrow> session_store \<Rightarrow> Session \<Rightarrow> couch_error option \<times> session_store" where
  "couchdb_DeleteDoc w st s =
     (case DeleteDoc_error w of
        Some err \<Rightarrow> (Some err, st)
      | None \<Rightarrow>
          (case st (DocID s) of
             None \<Rightarrow> (Some NotFound, st)
           | Some d \<Rightarrow> (None, st(DocID s := None))))"

definition couchdb_UpdateDoc ::
    "world \<Rightarrow> session_store \<Rightarrow> Session \<Rightarrow> couch_error option \<times> Session \<times> session_store" where
  "couchdb_UpdateDoc w st s =
     (case UpdateDoc_error w of
        Some err \<Rightarrow> (Some err, s, st)
      | None \<Rightarrow>
          (case st (DocID s) of
             None \<Rightarrow> (Some NotFound, s, st)
           | Some d \<Rightarrow>
               (let s' = s\<lparr>DocRev := UpdateDoc_rev w\<rparr>
                in (None, s', st(DocID s \<mapsto> s')))))"

text \<open>\<open>OlderThan\<close>, at the reading \<open>now\<close> of the clock.\<close>

definition OlderThan :: "int \<Rightarrow> Session \<Rightarrow> int \<Rightarrow> bool" where
  "OlderThan now s t = (now > LastSeen s + t)"

text \<open>The lines \<open>Get\<close> writes to the log of the instance.\<close>

datatype log_line =
  Warnf_failed_to_delete couch_error
| Infof_expired_deleted string

text \<open>
  \<open>Get\<close> returns its answer (the error or the session), the store after the call and
  the lines it logged. The lock on the session is taken and released within the call
  (\<open>defer lockSession(i, sessionID)()\<close>): the model is sequential and the lock leaves
  no trace.
\<close>

definition Get :: "world \<Rightarrow> session_store \<Rightarrow> string \<Rightarrow> (error + Session) \<times> session_store \<times> log_line list" where
  "Get w st sessionID =
     (case couchdb_GetDoc w st sessionID of
        Inl err \<Rightarrow>
          if IsNotFoundError (Some err) then (Inl ErrInvalidID, st, [])
          else (Inl (CouchError err), st, [])
      | Inr s \<Rightarrow>
          if OlderThan (Now w 0) s SessionMaxAge then
            (case couchdb_DeleteDoc w st s of
               (Some err, st') \<Rightarrow> (Inl ErrExpired, st', [Warnf_failed_to_delete err])
             | (None, st') \<Rightarrow> (Inl ErrExpired, st', [Infof_expired_deleted (DocID s)]))
          else if OlderThan (Now w 1) s (24 * Hour) then
            (let lastSeen = LastSeen s;
                 s1 = s\<lparr>LastSeen := Now w 2\<rparr>
             in case couchdb_UpdateDoc w st s1 of
                  (Some err, s2, st') \<Rightarrow> (Inr (s2\<lparr>LastSeen := lastSeen\<rparr>), st', [])
                | (None, s2, st') \<Rightarrow> (Inr s2, st', []))
          else (Inr s, st, []))"

definition answer :: "(error + Session) \<times> session_store \<times> log_line list \<Rightarrow> error + Session" where
  "answer r = fst r"

definition store_after :: "(error + Session) \<times> session_store \<times> log_line list \<Rightarrow> session_store" where
  "store_after r = fst (snd r)"

definition logged :: "(error + Session) \<times> session_store \<times> log_line list \<Rightarrow> log_line list" where
  "logged r = snd (snd r)"


section \<open>Examples\<close>

text \<open>Rules on the contacts of a tenant: one contact, all of them, another one, two.\<close>

definition contacts_one :: Rule where
  "contacts_one = \<lparr>Title = ''contacts'', Type = ''io.cozy.contacts'', Verbs = {Read},
     Selector = None, Values = [''c1'']\<rparr>"


definition contacts_other :: Rule where
  "contacts_other = \<lparr>Title = ''contacts'', Type = ''io.cozy.contacts'', Verbs = {Read},
     Selector = None, Values = [''c2'']\<rparr>"

definition contacts_two :: Rule where
  "contacts_two = \<lparr>Title = ''contacts'', Type = ''io.cozy.contacts'', Verbs = {Read, Update},
     Selector = None, Values = [''c1'', ''c2'']\<rparr>"

text \<open>A rule on two directories, with a value listed twice.\<close>

definition files_rule :: Rule where
  "files_rule = \<lparr>Title = ''files'', Type = ''io.cozy.files'', Verbs = {},
     Selector = None, Values = [''d1'', ''d1'', ''d2'']\<rparr>"

text \<open>A permission document of a sharing with two recipients.\<close>

definition shared_doc :: Permission where
  "shared_doc = \<lparr>PID = ''p1'', PRev = ''1-a'', PType = ''share'', SourceID = ''sharing-1'',
     Permissions = [], ExpiresAt = INil,
     Codes = Some [''alice@cozy.example'' \<mapsto> ''tokenA'', ''bob@cozy.example'' \<mapsto> ''tokenB''],
     ShortCodes = Some [''alice@cozy.example'' \<mapsto> ''a1'', ''bob@cozy.example'' \<mapsto> ''b1''],
     Password = INil\<rparr>"

text \<open>A session created and last seen at time 0, and the length of a day.\<close>

definition day :: int where
  "day = 24 * Hour"

definition old_session :: Session where
  "old_session = \<lparr>DocID = ''s1'', DocRev = ''1-a'', CreatedAt = 0, LastSeen = 0,
     LongRun = False, ShortRun = False, SID = []\<rparr>"

text \<open>A store that does what is asked, and one that fails to delete.\<close>

definition working :: "int \<Rightarrow> world" where
  "working now = \<lparr>Now = (\<lambda>n. now), GetDoc_error = None, DeleteDoc_error = None,
     UpdateDoc_error = None, UpdateDoc_rev = ''2-b''\<rparr>"

definition failing_delete :: "int \<Rightarrow> world" where
  "failing_delete now = (working now)\<lparr>DeleteDoc_error := Some (OtherError ''conflict'')\<rparr>"


section \<open>The loop of \<open>path.Clean\<close> and the rules it implements\<close>

subsection \<open>One element of the path, one turn of the loop\<close>

text \<open>
  The input of the loop is read element by element: \<open>rest\<close> below is what follows an
  element, the end of the path or a slash.
\<close>

lemma loop_slash: "clean_loop rooted (slash # p) out dd = clean_loop rooted p out dd"
  by (simp add: clean_loop.simps)

lemma loop_dot:
  assumes "rest = [] \<or> hd rest = slash"
  shows "clean_loop rooted (''.'' @ rest) out dd = clean_loop rooted rest out dd"
  using assms by (simp add: clean_loop.simps(2) [of rooted "CHR ''.''" rest] slash_def dot_def)


lemma elem_of_app:
  assumes "slash \<notin> set e" and "rest = [] \<or> hd rest = slash"
  shows "elem_of (e @ rest) = e"
proof (cases rest)
  case Nil
  with assms(1) show ?thesis
    by (auto simp: elem_of_def)
next
  case (Cons x xs)
  with assms have "x = slash" by simp
  with Cons assms(1) show ?thesis
    by (simp add: elem_of_def takeWhile_append)
qed

lemma after_elem_app:
  assumes "slash \<notin> set e" and "rest = [] \<or> hd rest = slash"
  shows "after_elem (e @ rest) = rest"
proof (cases rest)
  case Nil
  with assms(1) show ?thesis
    by (auto simp: after_elem_def)
next
  case (Cons x xs)
  with assms have "x = slash" by simp
  with Cons assms(1) show ?thesis
    by (simp add: after_elem_def dropWhile_append)
qed

lemma loop_normal:
  assumes n: "normal_elem e" and r: "rest = [] \<or> hd rest = slash"
  shows "clean_loop rooted (e @ rest) out dd =
    clean_loop rooted rest
      ((if rooted \<and> length out \<noteq> 1 \<or> \<not> rooted \<and> length out \<noteq> 0 then out @ [slash] else out) @ e) dd"
proof -
  from n obtain c e' where e: "e = c # e'"
    by (cases e) (auto simp: normal_elem_def)
  from n e have c: "c \<noteq> slash" and e's: "slash \<notin> set e'"
    by (auto simp: normal_elem_def)
  have not_dot: "\<not> (c = dot \<and> (e' @ rest = [] \<or> hd (e' @ rest) = slash))"
  proof (cases e')
    case Nil
    with n e show ?thesis by (auto simp: normal_elem_def dot_def)
  next
    case (Cons a as)
    with e's show ?thesis by auto
  qed
  have not_dotdot: "\<not> (c = dot \<and> hd (e' @ rest) = dot \<and>
      (tl (e' @ rest) = [] \<or> hd (tl (e' @ rest)) = slash))"
  proof (cases e')
    case Nil
    with n e r show ?thesis by (auto simp: normal_elem_def dot_def slash_def)
  next
    case 1: (Cons a as)
    show ?thesis
    proof (cases as)
      case Nil
      with 1 n e show ?thesis by (auto simp: normal_elem_def dot_def)
    next
      case (Cons b bs)
      with 1 e's show ?thesis by auto
    qed
  qed
  have el: "elem_of (c # e' @ rest) = c # e'" and af: "after_elem (c # e' @ rest) = rest"
    using elem_of_app [of e rest] after_elem_app [of e rest] n r e
    by (simp_all add: normal_elem_def)
  show ?thesis
    unfolding e append_Cons
    by (subst clean_loop.simps(2)) (simp only: c not_dot not_dotdot if_False Let_def el af)
qed


lemma dot_neq_slash: "dot \<noteq> slash"
  by (simp add: dot_def slash_def)

lemma loop_dotdot:
  assumes r: "rest = [] \<or> hd rest = slash"
  shows "clean_loop rooted (dot # dot # rest) out dd =
    (if length out > dd then
       clean_loop rooted rest (take (backtrack out dd (length out - 1)) out) dd
     else if \<not> rooted then
       clean_loop rooted rest ((if length out > 0 then out @ [slash] else out) @ [dot, dot])
         (length ((if length out > 0 then out @ [slash] else out) @ [dot, dot]))
     else clean_loop rooted rest out dd)"
  using r by (subst clean_loop.simps(2)) (simp add: dot_neq_slash Let_def)

subsection \<open>Backtracking over the last element\<close>

text \<open>
  The backward scan stops on the slash before the last element, or at the index
  \<open>dotdot\<close> when the element starts there.
\<close>

lemma backtrack_to_slash:
  assumes "slash \<notin> set e" and "dd \<le> length base" and "n \<le> length e"
  shows "backtrack (base @ slash # e) dd (length base + n) = length base"
  using assms(3)
proof (induction n)
  case 0
  show ?case
    by (subst backtrack.simps) simp
next
  case (Suc n)
  then have "n < length e" by simp
  with assms(1) have "e ! n \<noteq> slash"
    by (metis nth_mem)
  then have "(base @ slash # e) ! (length base + Suc n) \<noteq> slash"
    by (simp add: nth_append)
  moreover have "length base + Suc n > dd"
    using assms(2) by simp
  ultimately have "backtrack (base @ slash # e) dd (length base + Suc n) =
      backtrack (base @ slash # e) dd (length base + n)"
    by (subst backtrack.simps) simp
  with Suc show ?case
    by simp
qed

lemma backtrack_to_dotdot:
  assumes "slash \<notin> set e" and "n < length e"
  shows "backtrack (base @ e) (length base) (length base + n) = length base"
  using assms(2)
proof (induction n)
  case 0
  show ?case
    by (subst backtrack.simps) simp
next
  case (Suc n)
  with assms(1) have "e ! Suc n \<noteq> slash"
    by (metis nth_mem)
  then have "(base @ e) ! (length base + Suc n) \<noteq> slash"
    by (simp add: nth_append)
  then have "backtrack (base @ e) (length base) (length base + Suc n) =
      backtrack (base @ e) (length base) (length base + n)"
    by (subst backtrack.simps) simp
  with Suc show ?case
    by simp
qed

subsection \<open>Elements joined by slashes\<close>

lemma join_on_snoc:
  "join_on c (xs @ [e]) = (if xs = [] then e else join_on c xs @ c # e)"
proof (induction xs)
  case Nil
  show ?case by simp
next
  case (Cons x xs)
  then show ?case
    by (cases xs) simp_all
qed

lemma join_on_nonempty:
  assumes "xs \<noteq> []" and "\<forall>x \<in> set xs. x \<noteq> []"
  shows "join_on c xs \<noteq> []"
proof (cases xs)
  case Nil
  with assms show ?thesis by simp
next
  case (Cons y ys)
  with assms show ?thesis
    by (cases ys) auto
qed


lemma join_on_append:
  assumes "xs \<noteq> []" and "ys \<noteq> []"
  shows "join_on c (xs @ ys) = join_on c xs @ c # join_on c ys"
  using assms(1)
proof (induction xs)
  case Nil
  then show ?case by simp
next
  case (Cons x xs)
  show ?case
  proof (cases xs)
    case Nil
    with assms(2) show ?thesis
      by (cases ys) simp_all
  next
    case (Cons z zs)
    with Cons.IH show ?thesis
      by simp
  qed
qed

lemma backtrack_last_elem:
  assumes e: "e \<noteq> []" "slash \<notin> set e"
    and sep: "sep = [slash] \<and> dd \<le> length base \<or> sep = [] \<and> dd = length base"
  shows "take (backtrack (base @ sep @ e) dd (length (base @ sep @ e) - 1)) (base @ sep @ e) = base"
proof -
  from sep show ?thesis
  proof (elim disjE conjE)
    assume s: "sep = [slash]" and d: "dd \<le> length base"
    have "backtrack (base @ slash # e) dd (length base + length e) = length base"
      using e(2) d by (rule backtrack_to_slash) simp
    with s show ?thesis
      by simp
  next
    assume s: "sep = []" and d: "dd = length base"
    from e(1) have l: "length e - 1 < length e"
      by simp
    have "backtrack (base @ e) (length base) (length base + (length e - 1)) = length base"
      using e(2) l by (rule backtrack_to_dotdot)
    moreover have "length (base @ e) - 1 = length base + (length e - 1)"
      using e(1) by (cases e) simp_all
    ultimately show ?thesis
      using s d by simp
  qed
qed

subsection \<open>The bytes of a state\<close>

lemma normal_elemD:
  "normal_elem e \<Longrightarrow> e \<noteq> []"
  "normal_elem e \<Longrightarrow> slash \<notin> set e"
  "normal_elem e \<Longrightarrow> e \<noteq> [dot]"
  "normal_elem e \<Longrightarrow> e \<noteq> [dot, dot]"
  by (simp_all add: normal_elem_def dot_def)

lemma render_rooted: "render True (k, es) = slash # join_on slash (replicate k ''..'' @ es)"
  by (simp add: render_def)

lemma render_unrooted: "render False (k, es) = join_on slash (replicate k ''..'' @ es)"
  by (simp add: render_def)

lemma join_normal_nonempty:
  assumes "list_all normal_elem es" and "es \<noteq> []"
  shows "join_on slash es \<noteq> []"
  using assms by (intro join_on_nonempty) (auto simp: list_all_iff normal_elem_def)

text \<open>The written bytes when an element is appended.\<close>

lemma render_append_rooted:
  assumes n: "list_all normal_elem es"
  shows "(if length (render True (0, es)) \<noteq> 1
          then render True (0, es) @ [slash] else render True (0, es)) @ e =
         render True (0, es @ [e])"
proof (cases "es = []")
  case True
  then show ?thesis
    by (simp add: render_rooted)
next
  case False
  with n have "join_on slash es \<noteq> []"
    by (intro join_normal_nonempty)
  moreover have "join_on slash (es @ [e]) = join_on slash es @ slash # e"
    using False by (simp only: join_on_snoc if_False)
  ultimately show ?thesis
    by (simp add: render_rooted)
qed


lemma dots_elems_nonempty:
  assumes "list_all normal_elem es"
  shows "\<forall>x\<in>set (replicate k ''..'' @ es). x \<noteq> []"
proof
  fix x
  assume "x \<in> set (replicate k ''..'' @ es)"
  then have "x = ''..'' \<or> x \<in> set es"
    by (cases "k = 0") simp_all
  then show "x \<noteq> []"
  proof
    assume "x = ''..''"
    then show ?thesis by simp
  next
    assume "x \<in> set es"
    with assms have "normal_elem x"
      by (simp add: list_all_iff)
    then show ?thesis
      by (rule normal_elemD)
  qed
qed

lemma render_append_unrooted:
  assumes n: "list_all normal_elem es"
  shows "(if length (render False (k, es)) \<noteq> 0
          then render False (k, es) @ [slash] else render False (k, es)) @ e =
         render False (k, es @ [e])"
proof (cases "replicate k ''..'' @ es = []")
  case True
  then show ?thesis
    by (simp add: render_unrooted)
next
  case False
  let ?xs = "replicate k ''..'' @ es"
  from False dots_elems_nonempty [OF n] have "join_on slash ?xs \<noteq> []"
    by (intro join_on_nonempty)
  moreover have "join_on slash (?xs @ [e]) = join_on slash ?xs @ slash # e"
    using False by (simp only: join_on_snoc if_False)
  ultimately show ?thesis
    by (simp add: render_unrooted)
qed

lemma render_append:
  assumes "clean_state rooted (k, es)"
  shows "(if rooted \<and> length (render rooted (k, es)) \<noteq> 1 \<or>
             \<not> rooted \<and> length (render rooted (k, es)) \<noteq> 0
          then render rooted (k, es) @ [slash] else render rooted (k, es)) @ e =
         render rooted (k, es @ [e])"
proof (cases rooted)
  case True
  with assms have k: "k = 0" and n: "list_all normal_elem es"
    by (simp_all add: clean_state_def)
  from render_append_rooted [OF n, of e] show ?thesis
    unfolding k using True by (simp split: if_splits)
next
  case False
  from assms have n: "list_all normal_elem es"
    by (simp add: clean_state_def)
  from render_append_unrooted [OF n, of k e] show ?thesis
    using False by (simp split: if_splits)
qed


lemma render_dotdot_simps:
  "render_dotdot True (k, es) = 1"
  "render_dotdot False (k, es) = length (join_on slash (replicate k ''..''))"
  by (simp_all add: render_dotdot_def)

lemma length_join_dots_le:
  "length (join_on slash (replicate k ''..'')) \<le> length (join_on slash (replicate k ''..'' @ es))"
proof (cases "k = 0 \<or> es = []")
  case True
  then show ?thesis by auto
next
  case False
  then have "join_on slash (replicate k ''..'' @ es) =
      join_on slash (replicate k ''..'') @ slash # join_on slash es"
    by (intro join_on_append) simp_all
  then show ?thesis
    by simp
qed

text \<open>Something can be removed exactly when a normal element was written.\<close>

lemma can_backtrack:
  assumes "clean_state rooted (k, es)"
  shows "(render_dotdot rooted (k, es) < length (render rooted (k, es))) = (es \<noteq> [])"
proof (cases "es = []")
  case True
  with assms show ?thesis
    by (cases rooted) (simp_all add: clean_state_def render_rooted render_unrooted render_dotdot_simps)
next
  case False
  from assms have n: "list_all normal_elem es"
    by (simp add: clean_state_def)
  with False have j: "join_on slash es \<noteq> []"
    by (intro join_normal_nonempty)
  show ?thesis
  proof (cases rooted)
    case True
    with assms have "k = 0"
      by (simp add: clean_state_def)
    with True False j show ?thesis
      by (simp add: render_rooted render_dotdot_simps)
  next
    case unrooted: False
    show ?thesis
    proof (cases "k = 0")
      case True
      with unrooted False j show ?thesis
        by (simp add: render_unrooted render_dotdot_simps)
    next
      case nz: False
      with False have "join_on slash (replicate k ''..'' @ es) =
          join_on slash (replicate k ''..'') @ slash # join_on slash es"
        by (intro join_on_append) simp_all
      with unrooted False show ?thesis
        by (simp add: render_unrooted render_dotdot_simps)
    qed
  qed
qed

text \<open>Backtracking removes the last normal element.\<close>

lemma render_backtrack:
  assumes cs: "clean_state rooted (k, es @ [e])"
  shows "take (backtrack (render rooted (k, es @ [e])) (render_dotdot rooted (k, es))
            (length (render rooted (k, es @ [e])) - 1))
          (render rooted (k, es @ [e])) = render rooted (k, es)"
proof -
  from cs have n: "list_all normal_elem es" and ne: "normal_elem e"
    by (simp_all add: clean_state_def)
  from ne have e: "e \<noteq> []" "slash \<notin> set e"
    by (rule normal_elemD)+
  let ?out = "render rooted (k, es)"
  have "\<exists>sep. render rooted (k, es @ [e]) = ?out @ sep @ e \<and>
      (sep = [slash] \<and> render_dotdot rooted (k, es) \<le> length ?out \<or>
       sep = [] \<and> render_dotdot rooted (k, es) = length ?out)"
  proof (cases rooted)
    case True
    with cs have k: "k = 0"
      by (simp add: clean_state_def)
    show ?thesis
    proof (cases "es = []")
      case e: True
      with True k show ?thesis
        by (simp add: render_rooted render_dotdot_simps)
    next
      case False
      then have "join_on slash (es @ [e]) = join_on slash es @ slash # e"
        by (simp only: join_on_snoc if_False)
      with True k show ?thesis
        by (simp add: render_rooted render_dotdot_simps)
    qed
  next
    case unrooted: False
    let ?xs = "replicate k ''..'' @ es"
    show ?thesis
    proof (cases "?xs = []")
      case True
      with unrooted show ?thesis
        by (simp add: render_unrooted render_dotdot_simps)
    next
      case False
      then have "join_on slash (?xs @ [e]) = join_on slash ?xs @ slash # e"
        by (simp only: join_on_snoc if_False)
      with unrooted length_join_dots_le [of k es] show ?thesis
        by (simp add: render_unrooted render_dotdot_simps)
    qed
  qed
  then obtain sep where o: "render rooted (k, es @ [e]) = ?out @ sep @ e"
    and s: "sep = [slash] \<and> render_dotdot rooted (k, es) \<le> length ?out \<or>
       sep = [] \<and> render_dotdot rooted (k, es) = length ?out"
    by (elim exE conjE)
  show ?thesis
    unfolding o using e s by (rule backtrack_last_elem)
qed

text \<open>A \<open>..\<close> that cannot remove anything is written, when the path is not rooted.\<close>

lemma render_dotdot_append:
  "(if length (render False (k, [])) > 0 then render False (k, []) @ [slash]
    else render False (k, [])) @ [dot, dot] = render False (Suc k, [])"
proof (cases "k = 0")
  case True
  then show ?thesis
    by (simp add: render_unrooted dot_def)
next
  case False
  then have ne: "replicate k ''..'' \<noteq> []"
    by simp
  then have "join_on slash (replicate k ''..'') \<noteq> []"
    by (intro join_on_nonempty) auto
  moreover have "join_on slash (replicate k ''..'' @ [''..'']) =
      join_on slash (replicate k ''..'') @ slash # ''..''"
    using ne by (simp only: join_on_snoc if_False)
  moreover have "replicate (Suc k) ''..'' = replicate k ''..'' @ [''..'']"
    by (simp only: replicate_append_same replicate_Suc)
  ultimately show ?thesis
    by (simp add: render_unrooted dot_def del: replicate_Suc)
qed


subsection \<open>The elements of a path\<close>

lemma split_on_nonempty: "split_on c s \<noteq> []"
  by (induction s) (auto split: list.splits)

lemma join_on_head: "join_on c ((a # x) # xs) = a # join_on c (x # xs)"
  by (cases xs) simp_all

lemma join_on_split_on: "join_on c (split_on c s) = s"
proof (induction s)
  case Nil
  show ?case by simp
next
  case (Cons a s)
  obtain y ys where y: "split_on c s = y # ys"
    using split_on_nonempty [of c s] by (cases "split_on c s") auto
  with Cons show ?case
    by (simp add: join_on_head)
qed

lemma split_on_elems: "e \<in> set (split_on c s) \<Longrightarrow> c \<notin> set e"
proof (induction s arbitrary: e)
  case Nil
  then show ?case by simp
next
  case (Cons a s)
  obtain y ys where y: "split_on c s = y # ys"
    using split_on_nonempty [of c s] by (cases "split_on c s") auto
  with Cons.IH have "c \<notin> set y" and "\<forall>z\<in>set ys. c \<notin> set z"
    by simp_all
  with Cons.prems y show ?case
    by (auto split: if_splits)
qed

subsection \<open>The loop follows the rules\<close>

text \<open>
  From a state of the rules and its bytes, one element of the input takes the loop to
  the next state of the rules and its bytes.
\<close>

lemma lexical_step_state:
  assumes "clean_state rooted S" and "slash \<notin> set e"
  shows "clean_state rooted (lexical_step rooted S e)"
proof -
  obtain k es where S: "S = (k, es)"
    by (cases S)
  from assms(1) S have n: "list_all normal_elem es" and k: "rooted \<longrightarrow> k = 0"
    by (simp_all add: clean_state_def)
  from n have b: "list_all normal_elem (butlast es)"
    by (auto simp: list_all_iff dest: in_set_butlastD)
  have a: "list_all normal_elem (es @ [e])" if "e \<noteq> []" "e \<noteq> ''.''" "e \<noteq> ''..''"
    using n that assms(2) by (simp add: normal_elem_def)
  from n k a b show ?thesis
    unfolding S by (simp add: clean_state_def)
qed

lemma loop_step:
  assumes cs: "clean_state rooted S" and e: "slash \<notin> set e"
    and r: "rest = [] \<or> hd rest = slash"
  shows "clean_loop rooted (e @ rest) (render rooted S) (render_dotdot rooted S) =
    clean_loop rooted rest (render rooted (lexical_step rooted S e))
      (render_dotdot rooted (lexical_step rooted S e))"
proof -
  obtain k es where S: "S = (k, es)"
    by (cases S)
  have dd: "render_dotdot rooted (k, es') = render_dotdot rooted (k, es)" for es'
    by (simp add: render_dotdot_def)
  consider (empty) "e = []" | (dot) "e = ''.''" | (dotdot) "e = ''..''"
    | (normal) "e \<noteq> []" "e \<noteq> ''.''" "e \<noteq> ''..''"
    by blast
  then show ?thesis
  proof cases
    case empty
    then show ?thesis
      unfolding S by simp
  next
    case dot
    from loop_dot [OF r] show ?thesis
      unfolding S dot by simp
  next
    case dotdot
    have d: "''..'' @ rest = dot # dot # rest"
      by (simp add: dot_def)
    show ?thesis
    proof (cases "es = []")
      case True
      with can_backtrack [of rooted k es] cs S
      have nb: "\<not> render_dotdot rooted (k, []) < length (render rooted (k, []))"
        by simp
      show ?thesis
      proof (cases rooted)
        case rooted: True
        show ?thesis
          unfolding S dotdot d using nb True rooted
          by (simp add: loop_dotdot [OF r])
      next
        case False
        have "render_dotdot False (Suc k, []) = length (render False (Suc k, []))"
          by (simp add: render_dotdot_simps render_unrooted)
        with render_dotdot_append [of k] show ?thesis
          unfolding S dotdot d using nb True False
          by (simp add: loop_dotdot [OF r])
      qed
    next
      case False
      then have es: "es = butlast es @ [last es]"
        by simp
      from cs S have c: "clean_state rooted (k, butlast es @ [last es])"
        using es by simp
      from can_backtrack [of rooted k es] cs S False
      have b: "render_dotdot rooted (k, es) < length (render rooted (k, es))"
        by simp
      have ddb: "render_dotdot rooted (k, butlast es) = render_dotdot rooted (k, es)"
        by (rule dd)
      have "take (backtrack (render rooted (k, butlast es @ [last es]))
              (render_dotdot rooted (k, butlast es))
              (length (render rooted (k, butlast es @ [last es])) - 1))
            (render rooted (k, butlast es @ [last es])) = render rooted (k, butlast es)"
        by (rule render_backtrack [OF c])
      then have "take (backtrack (render rooted (k, es)) (render_dotdot rooted (k, es))
            (length (render rooted (k, es)) - 1)) (render rooted (k, es)) =
          render rooted (k, butlast es)"
        unfolding ddb es [symmetric] .
      with b False show ?thesis
        unfolding S dotdot d
        by (simp add: loop_dotdot [OF r] ddb)
    qed
  next
    case normal
    with e have n: "normal_elem e"
      by (simp add: normal_elem_def)
    from cs S have c: "clean_state rooted (k, es)"
      by simp
    from normal have st: "lexical_step rooted (k, es) e = (k, es @ [e])"
      by simp
    have dda: "render_dotdot rooted (k, es @ [e]) = render_dotdot rooted (k, es)"
      by (rule dd)
    show ?thesis
      unfolding S st loop_normal [OF n r] render_append [OF c] dda ..
  qed
qed

lemma loop_elements:
  assumes "clean_state rooted S" and "xs \<noteq> []" and "\<forall>e\<in>set xs. slash \<notin> set e"
  shows "clean_loop rooted (join_on slash xs) (render rooted S) (render_dotdot rooted S) =
    render rooted (foldl (lexical_step rooted) S xs)"
  using assms
proof (induction xs arbitrary: S)
  case Nil
  then show ?case by simp
next
  case (Cons e xs)
  from Cons.prems have e: "slash \<notin> set e"
    by simp
  show ?case
  proof (cases xs)
    case Nil
    have "clean_loop rooted (e @ []) (render rooted S) (render_dotdot rooted S) =
        clean_loop rooted [] (render rooted (lexical_step rooted S e))
          (render_dotdot rooted (lexical_step rooted S e))"
      using Cons.prems(1) e by (rule loop_step) simp
    with Nil show ?thesis
      by (simp add: clean_loop.simps(1))
  next
    case tail: (Cons y ys)
    let ?S = "lexical_step rooted S e"
    have "clean_loop rooted (e @ slash # join_on slash xs) (render rooted S) (render_dotdot rooted S) =
        clean_loop rooted (slash # join_on slash xs) (render rooted ?S) (render_dotdot rooted ?S)"
      using Cons.prems(1) e by (rule loop_step) simp
    also have "\<dots> = clean_loop rooted (join_on slash xs) (render rooted ?S) (render_dotdot rooted ?S)"
      by (rule loop_slash)
    also have "\<dots> = render rooted (foldl (lexical_step rooted) ?S xs)"
      using Cons.prems tail e by (intro Cons.IH lexical_step_state) simp_all
    finally show ?thesis
      using tail by simp
  qed
qed

lemma clean_loop_lexical:
  assumes "clean_state rooted S"
  shows "clean_loop rooted p (render rooted S) (render_dotdot rooted S) =
    render rooted (foldl (lexical_step rooted) S (split_on slash p))"
proof -
  have "clean_loop rooted (join_on slash (split_on slash p)) (render rooted S)
      (render_dotdot rooted S) = render rooted (foldl (lexical_step rooted) S (split_on slash p))"
    using assms split_on_nonempty split_on_elems by (intro loop_elements) blast+
  then show ?thesis
    by (simp only: join_on_split_on)
qed

text \<open>
  \<open>path.Clean\<close>, as the loop computes it, is the path that the four rules of its
  documentation give.
\<close>

theorem path_Clean_lexical: "path_Clean p = lexical_Clean p"
proof (cases "p = []")
  case True
  then show ?thesis
    by (simp add: path_Clean_def lexical_Clean_def)
next
  case False
  have init: "clean_state rooted (0, [])" for rooted
    by (simp add: clean_state_def)
  have r: "render True (0, []) = [slash]" "render_dotdot True (0, []) = 1"
    and u: "render False (0, []) = []" "render_dotdot False (0, []) = 0"
    by (simp_all add: render_def render_dotdot_def)
  have 1: "clean_loop True q [slash] (Suc 0) =
      render True (foldl (lexical_step True) (0, []) (split_on slash q))" for q
    using clean_loop_lexical [OF init, of True q] by (simp only: r One_nat_def)
  have 2: "clean_loop False q [] 0 =
      render False (foldl (lexical_step False) (0, []) (split_on slash q))" for q
    using clean_loop_lexical [OF init, of False q] by (simp only: u)
  show ?thesis
    using False by (simp add: path_Clean_def lexical_Clean_def Let_def 1 2)
qed


subsection \<open>The state after a directory\<close>

lemma split_on_notin: "c \<notin> set p \<Longrightarrow> split_on c p = [p]"
  by (induction p) auto

lemma split_on_append:
  "split_on c (x @ c # y) = split_on c x @ split_on c y"
proof (induction x)
  case Nil
  show ?case by simp
next
  case (Cons a x)
  obtain z zs where z: "split_on c x = z # zs"
    using split_on_nonempty [of c x] by (cases "split_on c x") auto
  with Cons show ?case
    by simp
qed

lemma split_on_join_on:
  assumes "xs \<noteq> []" and "\<forall>x\<in>set xs. c \<notin> set x"
  shows "split_on c (join_on c xs) = xs"
  using assms
proof (induction xs)
  case Nil
  then show ?case by simp
next
  case (Cons x xs)
  show ?case
  proof (cases xs)
    case Nil
    with Cons.prems show ?thesis
      by (simp add: split_on_notin)
  next
    case tail: (Cons y ys)
    then have "join_on c (x # xs) = x @ c # join_on c xs"
      by simp
    moreover have "split_on c x = [x]"
      using Cons.prems by (simp add: split_on_notin)
    moreover have "split_on c (join_on c xs) = xs"
      using Cons.prems tail by (intro Cons.IH) simp_all
    ultimately show ?thesis
      by (simp add: split_on_append)
  qed
qed

lemma path_Clean_state:
  assumes "p \<noteq> []"
  shows "path_Clean p = or_dot (render (hd p = slash)
    (lexical_state (hd p = slash) (if hd p = slash then tl p else p)))"
  using assms
  by (simp add: path_Clean_lexical lexical_Clean_def lexical_state_def or_dot_def Let_def)

lemma lexical_state_clean: "clean_state rooted (lexical_state rooted q)"
proof -
  have "clean_state rooted (foldl (lexical_step rooted) S xs)"
    if "clean_state rooted S" "\<forall>e\<in>set xs. slash \<notin> set e" for S xs
    using that by (induction xs arbitrary: S) (simp_all add: lexical_step_state)
  moreover have "clean_state rooted (0, [])"
    by (simp add: clean_state_def)
  ultimately show ?thesis
    unfolding lexical_state_def using split_on_elems by blast
qed

lemma lexical_step_empty: "lexical_step rooted S [] = S"
  by (cases S) simp

text \<open>The state after a directory prefix and a last element.\<close>

lemma lexical_state_dir:
  assumes "q = [] \<or> last q = slash" and "slash \<notin> set name"
  shows "lexical_state rooted (q @ name) = lexical_step rooted (lexical_state rooted q) name"
proof (cases "q = []")
  case True
  with assms(2) show ?thesis
    by (simp add: lexical_state_def split_on_notin)
next
  case False
  with assms(1) obtain q' where q: "q = q' @ [slash]"
    by (metis append_butlast_last_id)
  have "split_on slash (q' @ slash # name) = split_on slash q' @ [name]"
    using assms(2) by (simp add: split_on_append split_on_notin)
  moreover have "split_on slash (q' @ [slash]) = split_on slash q' @ [[]]"
    by (simp add: split_on_append)
  ultimately show ?thesis
    unfolding q lexical_state_def by (simp add: lexical_step_empty)
qed


subsection \<open>Cleaning a cleaned directory again\<close>

lemma replay_dots:
  "foldl (lexical_step False) (j, []) (replicate k ''..'') = (j + k, [])"
  by (induction k arbitrary: j) simp_all

lemma replay_normal:
  "list_all normal_elem es \<Longrightarrow> foldl (lexical_step rooted) (k, es0) es = (k, es0 @ es)"
  by (induction es arbitrary: es0) (simp_all add: normal_elem_def)

lemma replay:
  assumes "clean_state rooted (k, es)"
  shows "foldl (lexical_step rooted) (0, []) (replicate k ''..'' @ es) = (k, es)"
proof (cases rooted)
  case True
  with assms show ?thesis
    by (simp add: clean_state_def replay_normal)
next
  case False
  from assms have "list_all normal_elem es"
    by (simp add: clean_state_def)
  with False show ?thesis
    by (simp add: replay_dots replay_normal)
qed

lemma dots_elems_no_slash:
  assumes "list_all normal_elem es"
  shows "\<forall>x\<in>set (replicate k ''..'' @ es). slash \<notin> set x"
proof
  fix x
  assume "x \<in> set (replicate k ''..'' @ es)"
  then have "x = ''..'' \<or> x \<in> set es"
    by (cases "k = 0") simp_all
  then show "slash \<notin> set x"
  proof
    assume "x = ''..''"
    then show ?thesis by (simp add: slash_def)
  next
    assume "x \<in> set es"
    with assms have "normal_elem x"
      by (simp add: list_all_iff)
    then show ?thesis
      by (rule normal_elemD)
  qed
qed

lemma hd_join_on:
  assumes "xs \<noteq> []" and "hd xs \<noteq> []"
  shows "hd (join_on c xs) = hd (hd xs)"
proof (cases xs)
  case Nil
  with assms show ?thesis by simp
next
  case (Cons x ys)
  with assms show ?thesis
    by (cases ys) simp_all
qed

lemma render_empty:
  assumes "clean_state rooted S" and "render rooted S = []"
  shows "\<not> rooted \<and> S = (0, [])"
proof -
  obtain k es where S: "S = (k, es)"
    by (cases S)
  from assms(2) S have r: "\<not> rooted"
    by (cases rooted) (simp_all add: render_rooted)
  from assms(1) S have n: "list_all normal_elem es"
    by (simp add: clean_state_def)
  have "replicate k ''..'' @ es = []"
  proof (rule ccontr)
    assume "replicate k ''..'' @ es \<noteq> []"
    with dots_elems_nonempty [OF n] have "join_on slash (replicate k ''..'' @ es) \<noteq> []"
      by (intro join_on_nonempty)
    with assms(2) S r show False
      by (simp add: render_unrooted)
  qed
  with r S show ?thesis
    by simp
qed

lemma render_hd:
  assumes cs: "clean_state rooted S" and ne: "render rooted S \<noteq> []"
  shows "(hd (render rooted S) = slash) = rooted"
proof (cases rooted)
  case True
  then show ?thesis
    by (cases S) (simp add: render_rooted)
next
  case False
  obtain k es where S: "S = (k, es)"
    by (cases S)
  let ?xs = "replicate k ''..'' @ es"
  from cs S have n: "list_all normal_elem es"
    by (simp add: clean_state_def)
  from ne S False have xs: "?xs \<noteq> []"
    by (auto simp: render_unrooted)
  then have h: "hd ?xs \<in> set ?xs"
    by (rule hd_in_set)
  with dots_elems_nonempty [OF n] dots_elems_no_slash [OF n]
  have hne: "hd ?xs \<noteq> []" and hns: "slash \<notin> set (hd ?xs)"
    by blast+
  from hne hns have "hd (hd ?xs) \<noteq> slash"
    by (metis hd_in_set)
  moreover have "hd (join_on slash ?xs) = hd (hd ?xs)"
    using xs hne by (rule hd_join_on)
  ultimately have "hd (join_on slash ?xs) \<noteq> slash"
    by simp
  with False S show ?thesis
    by (simp add: render_unrooted)
qed

lemma render_not_dot:
  assumes cs: "clean_state rooted S"
  shows "render rooted S \<noteq> ''.''"
proof (cases rooted)
  case True
  then show ?thesis
    by (cases S) (simp add: render_rooted slash_def)
next
  case False
  obtain k es where S: "S = (k, es)"
    by (cases S)
  let ?xs = "replicate k ''..'' @ es"
  from cs S have n: "list_all normal_elem es"
    by (simp add: clean_state_def)
  have "join_on slash ?xs \<noteq> ''.''"
  proof (cases ?xs)
    case Nil
    then show ?thesis by simp
  next
    case (Cons x ys)
    then have x: "x \<in> set ?xs"
      by simp
    show ?thesis
    proof (cases ys)
      case Nil
      have "x \<noteq> ''.''"
      proof
        assume d: "x = ''.''"
        from x have "x = ''..'' \<or> x \<in> set es"
          by (cases "k = 0") simp_all
        with d have "''.'' \<in> set es"
          by auto
        with n have "normal_elem ''.''"
          by (simp add: list_all_iff)
        then show False
          by (simp add: normal_elem_def)
      qed
      with Cons Nil show ?thesis
        by simp
    next
      case tail: (Cons y zs)
      from x dots_elems_nonempty [OF n] have "x \<noteq> []"
        by blast
      then obtain a as where "x = a # as"
        by (cases x) auto
      with Cons tail show ?thesis
        by simp
    qed
  qed
  with False S show ?thesis
    by (simp add: render_unrooted)
qed


lemma Clean_replay:
  assumes cs: "clean_state rooted S" and ne: "render rooted S \<noteq> []"
    and nm: "slash \<notin> set name"
  shows "path_Clean (render rooted S @ slash # name) =
    or_dot (render rooted (lexical_step rooted S name))"
proof -
  obtain k es where S: "S = (k, es)"
    by (cases S)
  let ?out = "render rooted S"
  from cs S have n: "list_all normal_elem es"
    by (simp add: clean_state_def)
  have hd: "(hd (?out @ slash # name) = slash) = rooted"
    using render_hd [OF cs ne] ne by simp
  have "lexical_state rooted (if rooted then tl (?out @ slash # name) else ?out @ slash # name)
      = lexical_step rooted S name"
  proof (cases rooted)
    case True
    with cs S have k: "k = 0"
      by (simp add: clean_state_def)
    have t: "tl (?out @ slash # name) = join_on slash es @ slash # name"
      using True S k by (simp add: render_rooted)
    have "foldl (lexical_step True) (0, []) (split_on slash (join_on slash es)) = (0, es)"
    proof (cases "es = []")
      case e: True
      then show ?thesis by simp
    next
      case False
      then have "split_on slash (join_on slash es) = es"
        using dots_elems_no_slash [OF n, of 0] by (intro split_on_join_on) simp_all
      with n show ?thesis
        by (simp add: replay_normal)
    qed
    with True S k nm show ?thesis
      unfolding t lexical_state_def
      by (simp add: split_on_append split_on_notin del: lexical_step.simps)
  next
    case False
    let ?xs = "replicate k ''..'' @ es"
    from ne False S have xs: "?xs \<noteq> []"
      by (auto simp: render_unrooted)
    then have "split_on slash (join_on slash ?xs) = ?xs"
      using dots_elems_no_slash [OF n] by (rule split_on_join_on)
    moreover have "foldl (lexical_step rooted) (0, []) ?xs = (k, es)"
      using cs S by (intro replay) simp
    ultimately show ?thesis
      using False S nm unfolding lexical_state_def
      by (simp add: render_unrooted split_on_append split_on_notin del: lexical_step.simps)
  qed
  then show ?thesis
    using path_Clean_state [of "?out @ slash # name"] hd by simp
qed

lemma Clean_single:
  assumes "name \<noteq> []" and "slash \<notin> set name"
  shows "or_dot (render False (lexical_step False (0, []) name)) = name"
proof -
  consider "name = ''.''" | "name = ''..''" | "name \<noteq> ''.''" "name \<noteq> ''..''"
    by blast
  then show ?thesis
  proof cases
    case 1
    then show ?thesis by (simp add: render_unrooted or_dot_def)
  next
    case 2
    then show ?thesis by (simp add: render_unrooted or_dot_def)
  next
    case 3
    with assms show ?thesis by (simp add: render_unrooted or_dot_def)
  qed
qed

lemma path_Join_two:
  assumes "x \<noteq> []"
  shows "path_Join [x, name] = path_Clean (x @ slash # name)"
  using assms by (simp add: path_Join_def)

text \<open>
  The directory of a path is cleaned first and joined with the new base name: this is the
  directory part, as written, followed by the new base name, cleaned once.
\<close>

lemma Clean_dir_name:
  assumes d: "d = [] \<or> last d = slash" and nm: "name \<noteq> []" "slash \<notin> set name"
  shows "(if path_Clean d = ''.'' then name else path_Join [path_Clean d, name]) =
    path_Clean (d @ name)"
proof -
  define R where "R = (d \<noteq> [] \<and> hd d = slash)"
  define q where "q = (if R then tl d else d)"
  define S where "S = lexical_state R q"
  have cs: "clean_state R S"
    unfolding S_def by (rule lexical_state_clean)
  have q: "q = [] \<or> last q = slash"
  proof (cases R)
    case True
    then obtain t where t: "d = slash # t"
      unfolding R_def by (cases d) auto
    with d True show ?thesis
      unfolding q_def by (cases "t = []") simp_all
  next
    case False
    with d show ?thesis
      unfolding q_def by simp
  qed
  have hd: "(hd (d @ name) = slash) = R"
  proof (cases "d = []")
    case True
    with nm have "hd name \<noteq> slash"
      by (metis hd_in_set)
    with True show ?thesis
      unfolding R_def by simp
  next
    case False
    then show ?thesis
      unfolding R_def by simp
  qed
  have arg: "(if R then tl (d @ name) else d @ name) = q @ name"
    unfolding q_def R_def by (cases d) simp_all
  have rhs: "path_Clean (d @ name) = or_dot (render R (lexical_step R S name))"
    using path_Clean_state [of "d @ name"] nm(1) lexical_state_dir [OF q nm(2), of R]
    unfolding hd arg S_def by simp
  have lhs: "path_Clean d = (if d = [] then ''.'' else or_dot (render R S))"
  proof (cases "d = []")
    case True
    then show ?thesis by (simp add: path_Clean_def)
  next
    case False
    then have "(hd d = slash) = R"
      unfolding R_def by simp
    with path_Clean_state [OF False] False show ?thesis
      unfolding S_def q_def by simp
  qed
  show ?thesis
  proof (cases "d = [] \<or> render R S = []")
    case True
    have RS: "\<not> R \<and> S = (0, [])"
    proof (cases "d = []")
      case e: True
      then show ?thesis
        unfolding S_def q_def R_def by (simp add: lexical_state_def)
    next
      case False
      with True have "render R S = []" by simp
      with cs show ?thesis by (rule render_empty)
    qed
    from True lhs have "path_Clean d = ''.''"
      by (auto simp: or_dot_def)
    moreover have "path_Clean (d @ name) = name"
      unfolding rhs using RS Clean_single [OF nm] by simp
    ultimately show ?thesis
      by simp
  next
    case False
    with lhs have c: "path_Clean d = render R S"
      by (simp add: or_dot_def)
    from False have ne: "render R S \<noteq> []"
      by simp
    from render_not_dot [OF cs] c have "path_Clean d \<noteq> ''.''"
      by simp
    moreover have "path_Join [path_Clean d, name] = path_Clean (d @ name)"
      unfolding c path_Join_two [OF ne] Clean_replay [OF cs ne nm(2)] rhs ..
    ultimately show ?thesis
      by simp
  qed
qed


section \<open>Asset identifiers: what \<open>ExtractAssetID\<close> returns\<close>

subsection \<open>Indices and slices\<close>

lemma IndexByte_notin: "c \<notin> set s \<Longrightarrow> IndexByte s c = - 1"
  by (induction s) (auto simp: Let_def)

lemma IndexByte_first: "c \<notin> set p \<Longrightarrow> IndexByte (p @ c # r) c = int (length p)"
  by (induction p) (auto simp: Let_def)

lemma go_slice_mid:
  "go_slice (p @ c # s @ r) (int (length p) + 1) (int (length p) + 1 + int (length s)) = Some s"
  by (simp add: go_slice_def nat_add_distrib)

lemma go_slice_to_app: "go_slice_to (p @ r) (int (length p)) = Some p"
  by (simp add: go_slice_to_def go_slice_def)

lemma go_slice_from_Suc: "go_slice_from (p @ c # q) (int (length p) + 1) = Some q"
  by (simp add: go_slice_from_def go_slice_def nat_add_distrib)

lemma go_slice_from_mid:
  "go_slice_from (p @ c # s @ r) (int (length p) + 1 + int (length s)) = Some r"
  by (simp add: go_slice_from_def go_slice_def nat_add_distrib)

subsection \<open>Segments\<close>

lemma split_on_first: "c \<notin> set p \<Longrightarrow> split_on c (p @ c # r) = p # split_on c r"
  by (induction p) auto

subsection \<open>The three shapes of a base name\<close>

lemma ExtractAssetID_no_dot:
  assumes "dot \<notin> set (path_Base file)"
  shows "ExtractAssetID file = Some (file, [])"
proof -
  have "IndexByte (path_Base file) dot = - 1"
    using assms by (rule IndexByte_notin)
  then show ?thesis
    unfolding ExtractAssetID_def Let_def go_slice_from_def go_slice_def by simp
qed

lemma ExtractAssetID_one_dot:
  assumes b: "path_Base file = p @ dot # q" and p: "dot \<notin> set p" and q: "dot \<notin> set q"
  shows "ExtractAssetID file = Some (file, [])"
proof -
  have i1: "IndexByte (p @ dot # q) dot = int (length p)"
    using p by (rule IndexByte_first)
  have i2: "IndexByte q dot = - 1"
    using q by (rule IndexByte_notin)
  show ?thesis
    unfolding ExtractAssetID_def b Let_def i1 go_slice_from_Suc
    by (simp add: i2)
qed

lemma ExtractAssetID_two_dots:
  assumes b: "path_Base file = p @ dot # s @ dot # r" and p: "dot \<notin> set p" and s: "dot \<notin> set s"
  shows "ExtractAssetID file =
    Some (if is_asset_id s
          then (if path_Dir file \<noteq> ''.'' then path_Join [path_Dir file, p @ dot # r]
                else p @ dot # r, s)
          else (file, []))"
proof -
  have i1: "IndexByte (p @ dot # s @ dot # r) dot = int (length p)"
    using p by (rule IndexByte_first)
  have i2: "IndexByte (s @ dot # r) dot = int (length s)"
    using s by (rule IndexByte_first)
  have e: "\<not> is_asset_id []"
    by (simp add: is_asset_id_def isLongHexString_def)
  have "ExtractAssetID file =
    (if 0 < int (length s) then
       (if isLongHexString s \<or> s = ''immutable''
        then Some (if path_Dir file \<noteq> ''.'' then path_Join [path_Dir file, p @ dot # r]
                   else p @ dot # r, s)
        else Some (file, []))
     else Some (file, []))"
    by (simp add: ExtractAssetID_def b Let_def i1 go_slice_from_Suc i2
        go_slice_mid go_slice_from_mid go_slice_to_app del: length_greater_0_conv)
  then show ?thesis
    using e by (cases "s = []") (simp_all add: is_asset_id_def)
qed

lemma base_asset_id_no_dot: "dot \<notin> set b \<Longrightarrow> base_asset_id b = None"
  by (simp add: base_asset_id_def split_on_notin)

lemma base_asset_id_one_dot:
  "dot \<notin> set p \<Longrightarrow> dot \<notin> set q \<Longrightarrow> base_asset_id (p @ dot # q) = None"
  by (simp add: base_asset_id_def split_on_first split_on_notin)

lemma base_asset_id_two_dots:
  assumes "dot \<notin> set p" "dot \<notin> set s"
  shows "base_asset_id (p @ dot # s @ dot # r) =
    (if is_asset_id s then Some (p @ dot # r, s) else None)"
proof -
  obtain x xs where r: "split_on dot r = x # xs"
    using split_on_nonempty [of dot r] by (cases "split_on dot r") auto
  have "join_on dot (split_on dot r) = r"
    by (rule join_on_split_on)
  then have j: "join_on dot (x # xs) = r"
    unfolding r .
  have "split_on dot (p @ dot # s @ dot # r) = p # s # x # xs"
    using assms by (simp add: split_on_first r)
  then show ?thesis
    unfolding base_asset_id_def by (simp add: j)
qed

subsection \<open>The directory and the base name of a path\<close>

lemma lastSlash_from_base:
  assumes "slash \<notin> set b" and "n \<le> length b"
  shows "lastSlash_from (d @ b) (length d + n) = lastSlash_from (d @ b) (length d)"
  using assms(2)
proof (induction n)
  case 0
  show ?case by simp
next
  case (Suc n)
  then have "n < length b" by simp
  with assms(1) have "b ! n \<noteq> slash"
    by (metis nth_mem)
  then have "(d @ b) ! (length d + n) \<noteq> slash"
    by (simp add: nth_append)
  with Suc show ?case
    by simp
qed

lemma lastSlash_dir:
  assumes "d = [] \<or> last d = slash" and "slash \<notin> set b"
  shows "lastSlash (d @ b) = int (length d) - 1"
proof -
  have "lastSlash (d @ b) = lastSlash_from (d @ b) (length d)"
    unfolding lastSlash_def using lastSlash_from_base [OF assms(2), of "length b" d] by simp
  also have "\<dots> = int (length d) - 1"
  proof (cases "d = []")
    case True
    then show ?thesis by simp
  next
    case False
    with assms(1) obtain d' where d: "d = d' @ [slash]"
      by (metis append_butlast_last_id)
    show ?thesis
      unfolding d by (simp add: nth_append)
  qed
  finally show ?thesis .
qed

lemma path_Split_dir:
  assumes "d = [] \<or> last d = slash" and "slash \<notin> set b"
  shows "path_Split (d @ b) = (d, b)"
  using lastSlash_dir [OF assms] by (simp add: path_Split_def Let_def)

lemma path_Dir_dir:
  assumes "d = [] \<or> last d = slash" and "slash \<notin> set b"
  shows "path_Dir (d @ b) = path_Clean d"
  using path_Split_dir [OF assms] by (simp add: path_Dir_def)

lemma path_Base_dir:
  assumes "d = [] \<or> last d = slash" and "slash \<notin> set b" and "b \<noteq> []"
  shows "path_Base (d @ b) = b"
proof -
  from assms(2,3) have "last (d @ b) \<noteq> slash"
    by (metis last_appendR last_in_set)
  then have "(d @ b) ! (length (d @ b) - 1) \<noteq> slash"
    using assms(3) by (simp add: last_conv_nth)
  then have s: "stripTrailingSlashes (d @ b) = d @ b"
    by (subst stripTrailingSlashes.simps) simp
  have "path_Base (d @ b) =
      (let i = lastSlash (d @ b);
           p2 = (if i \<ge> 0 then drop (nat (i + 1)) (d @ b) else d @ b)
       in if p2 = [] then ''/'' else p2)"
    using assms(3) by (simp add: path_Base_def s Let_def)
  also have "\<dots> = b"
    unfolding lastSlash_dir [OF assms(1,2)] using assms(3)
    by (cases "d = []") (simp_all add: Let_def)
  finally show ?thesis .
qed

lemma base_asset_id_SomeD:
  assumes "base_asset_id b = Some (name, s)"
  obtains p r where "b = p @ dot # s @ dot # r" and "name = p @ dot # r"
    and "dot \<notin> set p" and "dot \<notin> set s" and "is_asset_id s"
proof (cases "dot \<in> set b")
  case False
  with assms show ?thesis
    by (simp add: base_asset_id_no_dot)
next
  case True
  from split_list_first [OF this]
  obtain p q where b: "b = p @ dot # q" and p: "dot \<notin> set p"
    by (elim exE conjE)
  show ?thesis
  proof (cases "dot \<in> set q")
    case False
    with assms b p show ?thesis
      by (simp add: base_asset_id_one_dot)
  next
    case True
    from split_list_first [OF this]
    obtain s' r where q: "q = s' @ dot # r" and s': "dot \<notin> set s'"
      by (elim exE conjE)
    from assms have "(if is_asset_id s' then Some (p @ dot # r, s') else None) = Some (name, s)"
      unfolding b q base_asset_id_two_dots [OF p s'] .
    then have "is_asset_id s'" and "name = p @ dot # r" and "s' = s"
      by (simp_all split: if_splits)
    with b q p s' that show ?thesis
      by simp
  qed
qed


lemma asset_name_no_slash:
  assumes "base_asset_id b = Some (name, s)" and "slash \<notin> set b"
  shows "name \<noteq> [] \<and> slash \<notin> set name"
proof -
  from assms(1) obtain p r where "b = p @ dot # s @ dot # r" and "name = p @ dot # r"
    by (rule base_asset_id_SomeD)
  with assms(2) show ?thesis
    by auto
qed

text \<open>
  Claim C8, as the code has it. Let the path be a directory part \<open>d\<close> (empty, or
  ending with a slash) followed by a base name \<open>b\<close> (not empty, without a slash). When
  \<open>b\<close> has three dot-separated segments or more and the second is \<open>immutable\<close> or a
  string of at least 10 hexadecimal digits, \<open>ExtractAssetID\<close> returns that segment as
  the identifier, together with the cleaned path (\<open>path.Clean\<close>) of \<open>d\<close> followed by the
  base name without the segment. For every path whose base name (\<open>path.Base\<close>) is not of
  that shape, it returns the input unchanged and an empty identifier. It never panics.
\<close>

theorem ExtractAssetID_segments:
  "(base_asset_id (path_Base file) = None \<longrightarrow> ExtractAssetID file = Some (file, [])) \<and>
   (\<forall>d b name s.
      file = d @ b \<and> (d = [] \<or> last d = slash) \<and> b \<noteq> [] \<and> slash \<notin> set b \<and>
      base_asset_id b = Some (name, s) \<longrightarrow>
      ExtractAssetID file = Some (path_Clean (d @ name), s))"
proof (intro conjI allI impI)
  assume none: "base_asset_id (path_Base file) = None"
  show "ExtractAssetID file = Some (file, [])"
  proof (cases "dot \<in> set (path_Base file)")
    case False
    then show ?thesis
      by (rule ExtractAssetID_no_dot)
  next
    case True
    from split_list_first [OF this]
    obtain p q where b: "path_Base file = p @ dot # q" and p: "dot \<notin> set p"
      by (elim exE conjE)
    show ?thesis
    proof (cases "dot \<in> set q")
      case False
      with b p show ?thesis
        by (rule ExtractAssetID_one_dot)
    next
      case True
      from split_list_first [OF this]
      obtain s r where q: "q = s @ dot # r" and s: "dot \<notin> set s"
        by (elim exE conjE)
      from b q have b': "path_Base file = p @ dot # s @ dot # r"
        by simp
      from none have "\<not> is_asset_id s"
        unfolding b' base_asset_id_two_dots [OF p s] by (simp split: if_splits)
      with ExtractAssetID_two_dots [OF b' p s] show ?thesis
        by simp
    qed
  qed
next
  fix d b name s
  assume a: "file = d @ b \<and> (d = [] \<or> last d = slash) \<and> b \<noteq> [] \<and> slash \<notin> set b \<and>
      base_asset_id b = Some (name, s)"
  then have f: "file = d @ b" and d: "d = [] \<or> last d = slash" and b: "b \<noteq> []"
    and nb: "slash \<notin> set b" and id: "base_asset_id b = Some (name, s)"
    by simp_all
  have base: "path_Base file = b"
    unfolding f using d nb b by (rule path_Base_dir)
  have dir: "path_Dir file = path_Clean d"
    unfolding f using d nb by (rule path_Dir_dir)
  from id obtain p r where sh: "b = p @ dot # s @ dot # r" and name: "name = p @ dot # r"
    and p: "dot \<notin> set p" and s: "dot \<notin> set s" and ok: "is_asset_id s"
    by (rule base_asset_id_SomeD)
  from base sh have b': "path_Base file = p @ dot # s @ dot # r"
    by simp
  from asset_name_no_slash [OF id nb] have nm: "name \<noteq> []" "slash \<notin> set name"
    by simp_all
  have "ExtractAssetID file =
      Some (if path_Clean d = ''.'' then name else path_Join [path_Clean d, name], s)"
    using ExtractAssetID_two_dots [OF b' p s] ok unfolding dir name by simp
  then show "ExtractAssetID file = Some (path_Clean (d @ name), s)"
    unfolding Clean_dir_name [OF d nm] .
qed

text \<open>
  The theorem at \<open>/js//foo.badbeefbadbeef.min.js\<close>, which carries an identifier (the
  path comes back cleaned), and at \<open>/js/app.js\<close>, which carries none.
\<close>

theorem ExtractAssetID_segments_witness:
  "base_asset_id ''foo.badbeefbadbeef.min.js'' = Some (''foo.min.js'', ''badbeefbadbeef'') \<and>
   ExtractAssetID ''/js//foo.badbeefbadbeef.min.js'' =
     Some (''/js/foo.min.js'', ''badbeefbadbeef'') \<and>
   base_asset_id (path_Base ''/js/app.js'') = None \<and>
   ExtractAssetID ''/js/app.js'' = Some (''/js/app.js'', [])"
proof -
  let ?d = "''/js//''" and ?b = "''foo.badbeefbadbeef.min.js''"
  have 1: "base_asset_id ?b = Some (''foo.min.js'', ''badbeefbadbeef'')"
    by code_simp
  have 2: "(?d = [] \<or> last ?d = slash) \<and> ?b \<noteq> [] \<and> slash \<notin> set ?b"
    by code_simp
  have 3: "path_Clean (?d @ ''foo.min.js'') = ''/js/foo.min.js''"
    by code_simp
  have 4: "base_asset_id (path_Base ''/js/app.js'') = None"
    by code_simp
  from ExtractAssetID_segments [of "?d @ ?b"] 1 2
  have "ExtractAssetID (?d @ ?b) = Some (path_Clean (?d @ ''foo.min.js''), ''badbeefbadbeef'')"
    by blast
  then have 5: "ExtractAssetID ''/js//foo.badbeefbadbeef.min.js'' =
      Some (''/js/foo.min.js'', ''badbeefbadbeef'')"
    unfolding 3 by simp
  from ExtractAssetID_segments [of "''/js/app.js''"] 4
  have 6: "ExtractAssetID ''/js/app.js'' = Some (''/js/app.js'', [])"
    by blast
  from 1 5 4 6 show ?thesis
    by (intro conjI)
qed

text \<open>
  Claim C8 as it is written fails on a base name of two segments: the second segment of
  \<open>foo.immutable\<close> is \<open>immutable\<close>, no dot follows it, and the path comes back
  unchanged with an empty identifier.
\<close>

theorem ExtractAssetID_two_segments_counterexample:
  "second_segment (path_Base ''foo.immutable'') = Some ''immutable'' \<and>
   is_asset_id ''immutable'' \<and>
   ExtractAssetID ''foo.immutable'' = Some (''foo.immutable'', [])"
  by code_simp

text \<open>
  A path that ends with a slash is outside the theorem: \<open>path.Base\<close> drops the slash
  and \<open>path.Dir\<close> keeps the whole path as the directory, so the new base name is put
  under the old one.
\<close>

lemma ExtractAssetID_trailing_slash:
  "ExtractAssetID ''foo.immutable.js/'' = Some (''foo.immutable.js/foo.js'', ''immutable'')"
  by code_simp


section \<open>The language of a request: what \<open>GetLanguageFromHeader\<close> returns\<close>

lemma Index_before_sep:
  "take (nat (Index s sep)) s = (if Index s sep \<ge> 0 then before_sep sep s else [])"
  by (induction s) (auto simp: Let_def nat_add_distrib)

lemma Index_absent: "Index s sep < 0 \<Longrightarrow> before_sep sep s = s"
  by (induction s) (auto simp: Let_def split: if_splits)

lemma IndexByte_takeWhile:
  "take (nat (IndexByte s c)) s = (if IndexByte s c \<ge> 0 then takeWhile (\<lambda>x. x \<noteq> c) s else [])"
  by (induction s) (auto simp: Let_def nat_add_distrib)

lemma IndexByte_absent: "IndexByte s c < 0 \<Longrightarrow> takeWhile (\<lambda>x. x \<noteq> c) s = s"
  by (induction s) (auto simp: Let_def split: if_splits)

lemma strip_is_tag_language:
  "(let i = Index tag '';q='';
        tag1 = (if i \<ge> 0 then take (nat i) tag else tag);
        j = IndexByte tag1 CHR ''-''
    in (if j \<ge> 0 then take (nat j) tag1 else tag1)) = tag_language tag"
proof -
  have 1: "(if Index tag '';q='' \<ge> 0 then take (nat (Index tag '';q='')) tag else tag)
      = before_sep '';q='' tag"
  proof (cases "Index tag '';q='' \<ge> 0")
    case True
    then show ?thesis
      by (simp add: Index_before_sep)
  next
    case False
    then have "before_sep '';q='' tag = tag"
      by (intro Index_absent) simp
    with False show ?thesis
      by simp
  qed
  have 2: "(if IndexByte t CHR ''-'' \<ge> 0 then take (nat (IndexByte t CHR ''-'')) t else t)
      = takeWhile (\<lambda>x. x \<noteq> CHR ''-'') t" for t
  proof (cases "IndexByte t CHR ''-'' \<ge> 0")
    case True
    then show ?thesis
      by (simp add: IndexByte_takeWhile)
  next
    case False
    then have "takeWhile (\<lambda>x. x \<noteq> CHR ''-'') t = t"
      by (intro IndexByte_absent) simp
    with False show ?thesis
      by (simp del: takeWhile_eq_all_conv)
  qed
  show ?thesis
    unfolding Let_def 1 2 tag_language_def ..
qed

lemma language_loop_find:
  "language_loop S tags lang =
     (case List.find (\<lambda>t. t \<in> set S) (map tag_language tags) of
        Some t \<Rightarrow> t | None \<Rightarrow> lang)"
proof (induction tags)
  case Nil
  show ?case by simp
next
  case (Cons tag tags)
  have "language_loop S (tag # tags) lang =
      (if IsInArray (tag_language tag) S then tag_language tag else language_loop S tags lang)"
    using strip_is_tag_language [of tag] by (simp add: Let_def)
  with Cons show ?case
    by (simp add: IsInArray_def)
qed

text \<open>
  Claim C9. \<open>GetLanguageFromHeader\<close> returns the default locale when the
  \<open>Accept-Language\<close> header is empty; otherwise it returns the first of the tags of
  the header (the elements of \<open>SplitTrimString(header, ",")\<close>, in their order), each
  cut before its \<open>;q=\<close> and before its \<open>-\<close>, that is a supported locale, and the default
  locale when none is.
\<close>

theorem GetLanguageFromHeader_first_supported:
  "GetLanguageFromHeader DefaultLocale SupportedLocales SplitTrimString header =
     (if Header_Get header ''Accept-Language'' = [] then DefaultLocale
      else case List.find (\<lambda>t. t \<in> set SupportedLocales)
                  (map tag_language (SplitTrimString (Header_Get header ''Accept-Language'') '','')) of
             Some t \<Rightarrow> t
           | None \<Rightarrow> DefaultLocale)"
  by (simp add: GetLanguageFromHeader_def Let_def language_loop_find)

text \<open>
  The theorem at the header \<open>de-DE, fr-FR;q=0.9 ,en;q=0.8\<close> with the locales \<open>en\<close>,
  \<open>fr\<close> and \<open>ja\<close>: German is not supported, French is the first tag that is.
\<close>

theorem GetLanguageFromHeader_first_supported_witness:
  "GetLanguageFromHeader ''en'' [''en'', ''fr'', ''ja''] split_trim
     ((\<lambda>k. [])(''Accept-Language'' := [''de-DE, fr-FR;q=0.9 ,en;q=0.8''])) = ''fr'' \<and>
   GetLanguageFromHeader ''en'' [''en'', ''fr'', ''ja''] split_trim
     ((\<lambda>k. [])(''Accept-Language'' := [''de-DE, it'']))  = ''en''"
proof -
  let ?h = "(\<lambda>k. [])(''Accept-Language'' := [''de-DE, fr-FR;q=0.9 ,en;q=0.8''])"
  let ?g = "(\<lambda>k. [])(''Accept-Language'' := [''de-DE, it''])"
  have 1: "(if Header_Get ?h ''Accept-Language'' = [] then ''en''
      else case List.find (\<lambda>t. t \<in> set [''en'', ''fr'', ''ja''])
                  (map tag_language (split_trim (Header_Get ?h ''Accept-Language'') '','')) of
             Some t \<Rightarrow> t | None \<Rightarrow> ''en'') = ''fr''"
    by code_simp
  have 2: "(if Header_Get ?g ''Accept-Language'' = [] then ''en''
      else case List.find (\<lambda>t. t \<in> set [''en'', ''fr'', ''ja''])
                  (map tag_language (split_trim (Header_Get ?g ''Accept-Language'') '','')) of
             Some t \<Rightarrow> t | None \<Rightarrow> ''en'') = ''en''"
    by code_simp
  show ?thesis
    using GetLanguageFromHeader_first_supported [of "''en''" "[''en'', ''fr'', ''ja'']" split_trim ?h]
      GetLanguageFromHeader_first_supported [of "''en''" "[''en'', ''fr'', ''ja'']" split_trim ?g]
    unfolding 1 2 by (intro conjI)
qed

section \<open>The asset handler: methods other than GET and HEAD\<close>

text \<open>
  Claim C10. For a request whose method is neither \<open>GET\<close> nor \<open>HEAD\<close>, \<open>ServeHTTP\<close>
  writes the status 405 on the response (a response on which no status was written
  yet) and returns: the headers and the body are as they were, so no content of an
  asset is written, and the list of the calls is empty, so no asset was looked up.
\<close>

theorem ServeHTTP_method_not_allowed:
  assumes "Method r \<noteq> ''GET''" and "Method r \<noteq> ''HEAD''" and "status w = None"
  shows "ServeHTTP e w r = Some (w\<lparr>status := Some 405\<rparr>, []) \<and>
    \<not> looked_up_asset (snd (the (ServeHTTP e w r))) \<and>
    body (fst (the (ServeHTTP e w r))) = body w"
  using assms
  by (simp add: ServeHTTP_def MethodGet_def MethodHead_def WriteHeader_def
      StatusMethodNotAllowed_def looked_up_asset_def)

text \<open>The theorem at a \<open>POST\<close> request for \<open>/assets/app.js\<close>, on a fresh response.\<close>

theorem ServeHTTP_method_not_allowed_witness:
  "Method \<lparr>Method = ''POST'', URL_Path = ''/assets/app.js'', Host = ''cozy.localhost'',
      ReqHeader = (\<lambda>k. [])\<rparr> \<noteq> ''GET'' \<and>
   Method \<lparr>Method = ''POST'', URL_Path = ''/assets/app.js'', Host = ''cozy.localhost'',
      ReqHeader = (\<lambda>k. [])\<rparr> \<noteq> ''HEAD'' \<and>
   status empty_response = None \<and>
   (\<forall>e. ServeHTTP e empty_response
      \<lparr>Method = ''POST'', URL_Path = ''/assets/app.js'', Host = ''cozy.localhost'',
       ReqHeader = (\<lambda>k. [])\<rparr> =
     Some (\<lparr>status = Some 405, headers = (\<lambda>k. []), body = []\<rparr>, []))"
proof -
  let ?r = "\<lparr>Method = ''POST'', URL_Path = ''/assets/app.js'', Host = ''cozy.localhost'',
      ReqHeader = (\<lambda>k. [])\<rparr>"
  have 1: "Method ?r \<noteq> ''GET''" and 2: "Method ?r \<noteq> ''HEAD''"
    by simp_all
  have 3: "status empty_response = None"
    by (simp add: empty_response_def)
  have "ServeHTTP e empty_response ?r =
      Some (\<lparr>status = Some 405, headers = (\<lambda>k. []), body = []\<rparr>, [])" for e
    using ServeHTTP_method_not_allowed [OF 1 2 3, of e] by (simp add: empty_response_def)
  with 1 2 3 show ?thesis
    by blast
qed


section \<open>Permissions: the algebra of rules and sets\<close>

subsection \<open>Verbs\<close>

lemma all_verbs_UNIV: "all_verbs = UNIV"
proof
  show "UNIV \<subseteq> all_verbs"
  proof
    fix v :: Verb
    show "v \<in> all_verbs"
      by (cases v) (simp_all add: all_verbs_def)
  qed
qed simp

lemma granted_empty: "granted {} = UNIV"
  by (simp add: granted_def all_verbs_UNIV)

lemma VerbSet_isSubsetOf_refl: "VerbSet_isSubsetOf vs vs"
  by (simp add: VerbSet_isSubsetOf_def)


text \<open>
  Claim C7. A rule whose VerbSet is empty (or absent) lets every verb through its
  verb-restriction check, and every VerbSet passes the subset test against the empty
  VerbSet of such a parent.
\<close>

theorem empty_VerbSet_grants_all:
  assumes "Verbs parent = {}"
  shows "Rule_allows parent v \<and> VerbSet_isSubsetOf child (Verbs parent)"
  using assms
  by (simp add: Rule_allows_def VerbSet_Contains_def VerbSet_isSubsetOf_def granted_empty)

text \<open>The theorem at a rule without verbs: it allows \<open>Delete\<close>, and the VerbSet
  \<open>{Read, Create}\<close> is a subset of its VerbSet.\<close>

theorem empty_VerbSet_grants_all_witness:
  "Verbs \<lparr>Title = ''contacts'', Type = ''io.cozy.contacts'', Verbs = {}, Selector = None,
      Values = []\<rparr> = {} \<and>
   Rule_allows \<lparr>Title = ''contacts'', Type = ''io.cozy.contacts'', Verbs = {}, Selector = None,
      Values = []\<rparr> Delete \<and>
   VerbSet_isSubsetOf {Read, Create}
     (Verbs \<lparr>Title = ''contacts'', Type = ''io.cozy.contacts'', Verbs = {}, Selector = None,
        Values = []\<rparr>)"
proof -
  let ?r = "\<lparr>Title = ''contacts'', Type = ''io.cozy.contacts'', Verbs = {}, Selector = None,
      Values = []\<rparr>"
  have e: "Verbs ?r = {}"
    by simp
  from e empty_VerbSet_grants_all [OF e, of Delete "{Read, Create}"] show ?thesis
    by (intro conjI) blast+
qed

subsection \<open>Rules\<close>

text \<open>
  The test of the values is the inclusion of the documents the two lists select: a
  list of values is finite, and it never holds all the documents.
\<close>

lemma values_within_selected: "values_within vs parent = (selected vs \<subseteq> selected parent)"
proof -
  have inf: "\<not> UNIV \<subseteq> set xs" for xs :: "string list"
  proof
    assume "UNIV \<subseteq> set xs"
    then have "finite (UNIV :: string set)"
      by (metis List.finite_set finite_subset)
    then show False
      using infinite_UNIV_listI by blast
  qed
  show ?thesis
    using inf [of parent]
    by (auto simp: values_within_def selected_def list_all_iff)
qed

lemma values_within_refl: "values_within vs vs"
  by (simp add: values_within_selected)


text \<open>
  Claim C3. Every rule is a subset of itself: \<open>r.isSubsetOf(r)\<close> is true.
\<close>

theorem Rule_isSubsetOf_refl: "Rule_isSubsetOf r r"
  by (simp add: Rule_isSubsetOf_def VerbSet_isSubsetOf_refl values_within_refl)

text \<open>The theorem at a rule on two contacts, selected by identifier.\<close>

theorem Rule_isSubsetOf_refl_witness:
  "Rule_isSubsetOf
     \<lparr>Title = ''contacts'', Type = ''io.cozy.contacts'', Verbs = {Read, Update},
      Selector = None, Values = [''c1'', ''c2'']\<rparr>
     \<lparr>Title = ''contacts'', Type = ''io.cozy.contacts'', Verbs = {Read, Update},
      Selector = None, Values = [''c1'', ''c2'']\<rparr>"
  by (rule Rule_isSubsetOf_refl)


subsection \<open>Sets\<close>




subsection \<open>Merging a set into itself\<close>

lemma add_value_present: "v \<in> set vs \<Longrightarrow> add_value vs v = vs"
  by (simp add: add_value_def)

lemma add_values_present: "set ws \<subseteq> set vs \<Longrightarrow> foldl add_value vs ws = vs"
  by (induction ws) (simp_all add: add_value_present)

lemma Rule_Merge_self: "Rule_Merge r r = Some r"
  by (simp add: Rule_Merge_def VerbSet_merge_def add_values_present)

lemma found_title_iff: "found_title ep perms = (Title ep \<in> set (map Title perms))"
  by (induction perms) auto

text \<open>No rule of the set is new to the set: the first loop appends nothing.\<close>

lemma append_new_present:
  assumes "set extras \<subseteq> set perms"
  shows "append_new perms extras permissions = permissions"
  using assms
proof (induction extras arbitrary: permissions)
  case Nil
  show ?case by simp
next
  case (Cons ep extras)
  then have "found_title ep perms"
    by (auto simp: found_title_iff)
  with Cons show ?case
    by simp
qed

text \<open>With distinct titles, the rule found for a rule of the set is the rule itself.\<close>

lemma merge_found_self:
  assumes "distinct (map Title s)" and "rule \<in> set s"
  shows "merge_found rule s = Some rule"
  using assms
proof (induction s)
  case Nil
  then show ?case by simp
next
  case (Cons r rs)
  show ?case
  proof (cases "Title rule = Title r")
    case True
    have "rule \<notin> set rs"
    proof
      assume "rule \<in> set rs"
      then have "Title rule \<in> set (map Title rs)"
        by simp
      with True Cons.prems(1) show False
        by simp
    qed
    with Cons.prems(2) have "rule = r"
      by simp
    then show ?thesis
      by (simp add: Rule_Merge_self)
  next
    case False
    with Cons.prems(2) have "rule \<in> set rs"
      by auto
    with Cons.IH Cons.prems(1) False show ?thesis
      by simp
  qed
qed

lemma merge_existing_self:
  assumes "distinct (map Title s)" and "set perms \<subseteq> set s"
  shows "merge_existing perms s permissions = permissions @ perms"
  using assms(2)
proof (induction perms arbitrary: permissions)
  case Nil
  show ?case by simp
next
  case (Cons rule perms)
  then have "merge_found rule s = Some rule"
    using assms(1) by (simp add: merge_found_self)
  with Cons show ?case
    by simp
qed

text \<open>
  Claim C5, for the sets that keep the convention on titles. For every set \<open>s\<close> whose
  rules have pairwise distinct titles, merging \<open>s\<close> with itself yields \<open>s\<close>:
  \<open>MergeExtraPermissions(s, s) = s\<close>, rule by rule and in the same order.
\<close>

theorem MergeExtraPermissions_idempotent:
  assumes "distinct (map Title s)"
  shows "MergeExtraPermissions s s = s"
  unfolding MergeExtraPermissions_def
  using assms by (simp add: append_new_present merge_existing_self)

text \<open>The theorem at a set of two rules with the titles \<open>contacts\<close> and \<open>files\<close>.\<close>

theorem MergeExtraPermissions_idempotent_witness:
  "distinct (map Title [contacts_two, files_rule]) \<and>
   MergeExtraPermissions [contacts_two, files_rule] [contacts_two, files_rule] =
     [contacts_two, files_rule]"
proof -
  have d: "distinct (map Title [contacts_two, files_rule])"
    by (simp add: contacts_two_def files_rule_def)
  from d MergeExtraPermissions_idempotent [OF d] show ?thesis
    by (intro conjI)
qed

text \<open>
  Claim C5 as it is written fails on a set in which two rules share a title: the second
  rule is merged with the first rule of its title, which is not itself, and then holds
  the values of both. The result is not the set, and not its content either.
\<close>

theorem MergeExtraPermissions_same_title_counterexample:
  "MergeExtraPermissions [contacts_one, contacts_other] [contacts_one, contacts_other] =
     [contacts_one, contacts_other\<lparr>Values := [''c2'', ''c1'']\<rparr>] \<and>
   MergeExtraPermissions [contacts_one, contacts_other] [contacts_one, contacts_other] \<noteq>
     [contacts_one, contacts_other] \<and>
   set_content (MergeExtraPermissions [contacts_one, contacts_other]
       [contacts_one, contacts_other]) \<noteq>
     set_content [contacts_one, contacts_other]"
proof -
  have m: "MergeExtraPermissions [contacts_one, contacts_other] [contacts_one, contacts_other] =
     [contacts_one, contacts_other\<lparr>Values := [''c2'', ''c1'']\<rparr>]"
    by (simp add: MergeExtraPermissions_def Rule_Merge_def VerbSet_merge_def add_value_def
        contacts_one_def contacts_other_def)
  have n: "[contacts_one, contacts_other\<lparr>Values := [''c2'', ''c1'']\<rparr>] \<noteq>
      [contacts_one, contacts_other]"
    by (simp add: contacts_other_def)
  have c: "set_content [contacts_one, contacts_other\<lparr>Values := [''c2'', ''c1'']\<rparr>] \<noteq>
      set_content [contacts_one, contacts_other]"
  proof
    assume "set_content [contacts_one, contacts_other\<lparr>Values := [''c2'', ''c1'']\<rparr>] =
      set_content [contacts_one, contacts_other]"
    moreover have "rule_content contacts_other \<in> set_content [contacts_one, contacts_other]"
      by (simp add: set_content_def)
    ultimately have "rule_content contacts_other \<in>
        set_content [contacts_one, contacts_other\<lparr>Values := [''c2'', ''c1'']\<rparr>]"
      by simp
    then show False
      by (auto simp: set_content_def rule_content_def contacts_one_def contacts_other_def)
  qed
  from m n c show ?thesis
    by simp
qed

subsection \<open>The codes of a permission document\<close>

text \<open>
  Claim C6. After \<open>PatchCodes(codes)\<close>, every key of the ShortCodes of the document is
  a key of \<open>codes\<close>, and the Codes of the document are \<open>codes\<close>.
\<close>

theorem PatchCodes_ShortCodes_subset:
  "map_keys (ShortCodes (PatchCodes p codes)) \<subseteq> map_keys codes \<and>
   Codes (PatchCodes p codes) = codes"
proof (cases "ShortCodes p")
  case None
  then show ?thesis
    by (simp add: PatchCodes_def Let_def map_keys_def entries_def)
next
  case (Some f)
  then show ?thesis
    by (auto simp: PatchCodes_def Let_def map_keys_def entries_def split: option.splits)
qed

text \<open>
  The theorem at a document shared with Alice and Bob, patched with codes for Alice
  only: the short code of Bob is gone.
\<close>

theorem PatchCodes_ShortCodes_subset_witness:
  "''bob@cozy.example'' \<in> map_keys (ShortCodes shared_doc) \<and>
   ''bob@cozy.example'' \<notin> map_keys (Some [''alice@cozy.example'' \<mapsto> ''tokenC'']) \<and>
   ''bob@cozy.example'' \<notin>
      map_keys (ShortCodes (PatchCodes shared_doc (Some [''alice@cozy.example'' \<mapsto> ''tokenC'']))) \<and>
   entries (ShortCodes (PatchCodes shared_doc (Some [''alice@cozy.example'' \<mapsto> ''tokenC''])))
      ''alice@cozy.example'' = Some ''a1''"
proof -
  let ?codes = "Some [''alice@cozy.example'' \<mapsto> ''tokenC'']"
  have 1: "''bob@cozy.example'' \<in> map_keys (ShortCodes shared_doc)"
    by (simp add: shared_doc_def map_keys_def entries_def)
  have 2: "''bob@cozy.example'' \<notin> map_keys ?codes"
    by (simp add: map_keys_def entries_def)
  have 3: "''bob@cozy.example'' \<notin> map_keys (ShortCodes (PatchCodes shared_doc ?codes))"
    using PatchCodes_ShortCodes_subset [of shared_doc ?codes] 2 by blast
  have 4: "entries (ShortCodes (PatchCodes shared_doc ?codes)) ''alice@cozy.example'' = Some ''a1''"
    by (simp add: PatchCodes_def shared_doc_def entries_def)
  from 1 2 3 4 show ?thesis
    by (intro conjI)
qed


section \<open>Sessions: getting an expired session\<close>

lemma Get_fetch_error:
  assumes "GetDoc_error w = Some err"
  shows "Get w st sid =
    (if err = NotFound then (Inl ErrInvalidID, st, []) else (Inl (CouchError err), st, []))"
  using assms by (simp add: Get_def couchdb_GetDoc_def IsNotFoundError_def)

lemma Get_missing:
  assumes "GetDoc_error w = None" and "st sid = None"
  shows "Get w st sid = (Inl ErrInvalidID, st, [])"
  using assms by (simp add: Get_def couchdb_GetDoc_def IsNotFoundError_def)

lemma Get_expired_fetched:
  assumes "GetDoc_error w = None" and "st sid = Some s" and "DocID s = sid"
    and "OlderThan (Now w 0) s SessionMaxAge"
  shows "Get w st sid =
    (case DeleteDoc_error w of
       Some err \<Rightarrow> (Inl ErrExpired, st, [Warnf_failed_to_delete err])
     | None \<Rightarrow> (Inl ErrExpired, st(sid := None), [Infof_expired_deleted sid]))"
  using assms
  by (simp add: Get_def couchdb_GetDoc_def couchdb_DeleteDoc_def split: option.splits)

text \<open>
  Claim C2, as the code has it. For every stored session whose LastSeen is more than 30
  days before now, \<open>Get\<close> never returns the session. When the store returns the
  document, the answer is the expired-error and the deletion is attempted: when the
  store deletes the document, the session is gone and a later \<open>Get\<close> on the same
  identifier, when its fetch does not fail, returns the invalid-ID error; when the
  deletion fails, the failure is logged, not escalated, and the store is as it was.
  When the fetch fails with an error other than not-found, \<open>Get\<close> returns that error.
\<close>

theorem Get_expired:
  assumes "st sid = Some s" and "DocID s = sid" and "Now w 0 - LastSeen s > SessionMaxAge"
  shows "(\<forall>x. answer (Get w st sid) \<noteq> Inr x) \<and>
    (GetDoc_error w = None \<longrightarrow>
       answer (Get w st sid) = Inl ErrExpired \<and>
       (DeleteDoc_error w = None \<longrightarrow>
          store_after (Get w st sid) sid = None \<and>
          (GetDoc_error w' = None \<longrightarrow>
             answer (Get w' (store_after (Get w st sid)) sid) = Inl ErrInvalidID)) \<and>
       (\<forall>err. DeleteDoc_error w = Some err \<longrightarrow>
          store_after (Get w st sid) = st \<and>
          logged (Get w st sid) = [Warnf_failed_to_delete err])) \<and>
    (\<forall>err. GetDoc_error w = Some err \<and> err \<noteq> NotFound \<longrightarrow>
       answer (Get w st sid) = Inl (CouchError err) \<and> store_after (Get w st sid) = st)"
proof -
  from assms(3) have old: "OlderThan (Now w 0) s SessionMaxAge"
    by (simp add: OlderThan_def)
  show ?thesis
  proof (cases "GetDoc_error w")
    case (Some err)
    then show ?thesis
      by (simp add: Get_fetch_error answer_def store_after_def)
  next
    case None
    have fetched: "Get w st sid =
      (case DeleteDoc_error w of
         Some err \<Rightarrow> (Inl ErrExpired, st, [Warnf_failed_to_delete err])
       | None \<Rightarrow> (Inl ErrExpired, st(sid := None), [Infof_expired_deleted sid]))"
      using None assms(1,2) old by (rule Get_expired_fetched)
    show ?thesis
    proof (cases "DeleteDoc_error w")
      case (Some err)
      with None fetched show ?thesis
        by (simp add: answer_def store_after_def logged_def)
    next
      case del: None
      have "GetDoc_error w' = None \<longrightarrow>
          answer (Get w' (st(sid := None)) sid) = Inl ErrInvalidID"
        by (simp add: Get_missing answer_def)
      with None del fetched show ?thesis
        by (simp add: answer_def store_after_def)
    qed
  qed
qed

text \<open>
  The theorem at a session last seen 31 days ago, with a store that does what is asked:
  the first \<open>Get\<close> returns the expired-error, the second the invalid-ID error.
\<close>

theorem Get_expired_witness:
  "[''s1'' \<mapsto> old_session] ''s1'' = Some old_session \<and> DocID old_session = ''s1'' \<and>
   Now (working (31 * day)) 0 - LastSeen old_session > SessionMaxAge \<and>
   answer (Get (working (31 * day)) [''s1'' \<mapsto> old_session] ''s1'') = Inl ErrExpired \<and>
   answer (Get (working (31 * day + 1))
         (store_after (Get (working (31 * day)) [''s1'' \<mapsto> old_session] ''s1'')) ''s1'')
     = Inl ErrInvalidID"
proof -
  let ?w = "working (31 * day)" and ?w' = "working (31 * day + 1)"
  let ?st = "[''s1'' \<mapsto> old_session]"
  have 1: "?st ''s1'' = Some old_session"
    by simp
  have 2: "DocID old_session = ''s1''"
    by (simp add: old_session_def)
  have 3: "Now ?w 0 - LastSeen old_session > SessionMaxAge"
    by (simp add: working_def day_def Hour_def SessionMaxAge_def old_session_def)
  have 4: "GetDoc_error ?w = None" "DeleteDoc_error ?w = None" "GetDoc_error ?w' = None"
    by (simp_all add: working_def)
  have "(\<forall>x. answer (Get ?w ?st ''s1'') \<noteq> Inr x) \<and>
    (GetDoc_error ?w = None \<longrightarrow>
       answer (Get ?w ?st ''s1'') = Inl ErrExpired \<and>
       (DeleteDoc_error ?w = None \<longrightarrow>
          store_after (Get ?w ?st ''s1'') ''s1'' = None \<and>
          (GetDoc_error ?w' = None \<longrightarrow>
             answer (Get ?w' (store_after (Get ?w ?st ''s1'')) ''s1'') = Inl ErrInvalidID)) \<and>
       (\<forall>err. DeleteDoc_error ?w = Some err \<longrightarrow>
          store_after (Get ?w ?st ''s1'') = ?st \<and>
          logged (Get ?w ?st ''s1'') = [Warnf_failed_to_delete err])) \<and>
    (\<forall>err. GetDoc_error ?w = Some err \<and> err \<noteq> NotFound \<longrightarrow>
       answer (Get ?w ?st ''s1'') = Inl (CouchError err) \<and> store_after (Get ?w ?st ''s1'') = ?st)"
    using 1 2 3 by (rule Get_expired)
  with 4 have "answer (Get ?w ?st ''s1'') = Inl ErrExpired"
    and "answer (Get ?w' (store_after (Get ?w ?st ''s1'')) ''s1'') = Inl ErrInvalidID"
    by blast+
  with 1 2 3 show ?thesis
    by (intro conjI)
qed

text \<open>
  Claim C2 as it is written fails when the store does not delete the document: the
  first \<open>Get\<close> returns the expired-error and logs the failure, the session is still
  stored, and the next \<open>Get\<close> returns the expired-error again, not the invalid-ID
  error.
\<close>

theorem Get_expired_delete_fails_counterexample:
  "answer (Get (failing_delete (31 * day)) [''s1'' \<mapsto> old_session] ''s1'') = Inl ErrExpired \<and>
   store_after (Get (failing_delete (31 * day)) [''s1'' \<mapsto> old_session] ''s1'') ''s1'' =
     Some old_session \<and>
   answer (Get (working (31 * day + 1))
         (store_after (Get (failing_delete (31 * day)) [''s1'' \<mapsto> old_session] ''s1'')) ''s1'')
     = Inl ErrExpired"
  by (simp add: Get_def couchdb_GetDoc_def couchdb_DeleteDoc_def IsNotFoundError_def
      OlderThan_def answer_def store_after_def failing_delete_def working_def day_def
      Hour_def SessionMaxAge_def old_session_def)

end
